theory Spec2Isabelle
  imports Complex_Main "HOL-Library.Sublist"
begin

section \<open>The integration driver \<open>iterator\<close> of \<open>iterator.py\<close>\<close>

text \<open>
  \<open>iterator(f, h, method, t, y, nmax, exitcond, trackint)\<close> first builds the advance
  operation \<open>step = setstep(f, method, h)\<close>. The module \<open>stepsetter\<close> is not modelled:
  the model takes \<open>step\<close> itself as a parameter, a function from a time and a state
  vector to the next time and state vector.

  Times are values of a type \<open>'t\<close> and state vectors values of a type \<open>'y\<close>; the
  driver never computes with either, it only hands them to \<open>step\<close> and \<open>exitcond\<close> and
  stores them. A value of \<open>'y\<close> is the whole content of a one-dimensional array of the
  run's length. \<open>nmax\<close> is a natural number.

  The tracking arrays are made by \<open>np.empty\<close> without a \<open>dtype\<close>, so they are arrays of
  \<open>float64\<close>, and an assignment into them converts what is assigned. The conversions are
  parameters of the model: \<open>cast_t\<close> is what storing does to a time, \<open>cast_y\<close> what it does
  to a state vector, component by component.
\<close>

subsection \<open>Values, errors, results\<close>

text \<open>
  \<open>trackint\<close> is not type-checked by the source: it is compared with \<open>is None\<close>,
  \<open>== 1\<close> and \<open>> 1\<close>. The model knows \<open>None\<close>, integers and finite floats (a float
  by its exact rational value, which is how Python compares it with the integer \<open>1\<close>).
\<close>

datatype pyval = PyNone | PyInt int | PyFloat rat

datatype error = SystemExit | UnboundLocalError | IndexError | TypeError

text \<open>What the driver calls, in order: \<open>step(t, y)\<close> and \<open>exitcond(t, y)\<close>.\<close>

datatype ('t, 'y) event = Advance 't 'y | Check 't 'y

text \<open>
  The source returns the pair \<open>(t, y)\<close> when tracking is off and the pair
  \<open>(t_arr, y_arr)\<close> when it is on.
\<close>

datatype ('t, 'y) result = FinalState 't 'y | Trajectory "'t list" "'y list"

text \<open>The local variables of one call, and the calls made so far.\<close>

record ('t, 'y) frame =
  var_t :: 't
  var_y :: 'y
  var_i :: "nat option"
  t_arr :: "'t list"
  y_arr :: "'y list"
  calls :: "('t, 'y) event list"

subsection \<open>The numpy operations used\<close>

text \<open>
  \<open>np.empty(n)\<close> returns an array of \<open>n\<close> entries that are not initialised: entry \<open>k\<close>
  holds whatever the memory held, \<open>mem k\<close>.
\<close>

definition np_empty :: "(nat \<Rightarrow> 'a) \<Rightarrow> nat \<Rightarrow> 'a list" where
  "np_empty mem n = map mem [0..<n]"

text \<open>
  \<open>arr[k] = v\<close>: the entry becomes \<open>v\<close> converted to the type of the array's entries,
  \<open>cast v\<close>.
\<close>

definition setitem :: "('a \<Rightarrow> 'a) \<Rightarrow> 'a list \<Rightarrow> nat \<Rightarrow> 'a \<Rightarrow> error + 'a list" where
  "setitem cast arr k v = (if k < length arr then Inr (arr[k := cast v]) else Inl IndexError)"

definition getitem :: "'a list \<Rightarrow> nat \<Rightarrow> error + 'a" where
  "getitem arr k = (if k < length arr then Inr (arr ! k) else Inl IndexError)"

text \<open>
  \<open>np.delete(arr, obj, 0)\<close> returns a new array without the entries whose index is in
  \<open>obj\<close>; an index out of bounds raises IndexError (numpy 1.19 and later).
\<close>

definition np_delete :: "'a list \<Rightarrow> nat list \<Rightarrow> error + 'a list" where
  "np_delete arr obj =
     (if list_all (\<lambda>k. k < length arr) obj
      then Inr (map (nth arr) (filter (\<lambda>k. k \<notin> set obj) [0..<length arr]))
      else Inl IndexError)"

subsection \<open>The statements of the loops\<close>

text \<open>\<open>t, y = step(t, y)\<close>\<close>

definition step_vars :: "('t \<Rightarrow> 'y \<Rightarrow> 't \<times> 'y) \<Rightarrow> ('t, 'y) frame \<Rightarrow> ('t, 'y) frame" where
  "step_vars step fr =
     (case step (var_t fr) (var_y fr) of (t', y') \<Rightarrow>
        fr\<lparr>var_t := t', var_y := y',
           calls := calls fr @ [Advance (var_t fr) (var_y fr)]\<rparr>)"

text \<open>\<open>for j in range(k): t, y = step(t, y)\<close>\<close>

fun substeps :: "('t \<Rightarrow> 'y \<Rightarrow> 't \<times> 'y) \<Rightarrow> nat \<Rightarrow> ('t, 'y) frame \<Rightarrow> ('t, 'y) frame" where
  "substeps step 0 fr = fr"
| "substeps step (Suc k) fr = substeps step k (step_vars step fr)"

text \<open>
  \<open>for i in range(k): t, y = step(t, y); if exitcond(t, y): break\<close>
\<close>

fun steps_until ::
  "('t \<Rightarrow> 'y \<Rightarrow> 't \<times> 'y) \<Rightarrow> ('t \<Rightarrow> 'y \<Rightarrow> bool) \<Rightarrow> nat \<Rightarrow> ('t, 'y) frame \<Rightarrow> ('t, 'y) frame"
where
  "steps_until step ec 0 fr = fr"
| "steps_until step ec (Suc k) fr =
     (let fr1 = step_vars step fr;
          fr2 = fr1\<lparr>calls := calls fr1 @ [Check (var_t fr1) (var_y fr1)]\<rparr>
      in if ec (var_t fr1) (var_y fr1) then fr2 else steps_until step ec k fr2)"

text \<open>
  \<open>t_arr[i], y_arr[i, :] = step(t_arr[i-1], y_arr[i-1, :])\<close>, with \<open>i\<close> bound by the
  \<open>for\<close> statement. An exception leaves with the calls made so far.
\<close>

definition step_arrays ::
  "('t \<Rightarrow> 't) \<Rightarrow> ('y \<Rightarrow> 'y) \<Rightarrow> ('t \<Rightarrow> 'y \<Rightarrow> 't \<times> 'y) \<Rightarrow> nat \<Rightarrow> ('t, 'y) frame
     \<Rightarrow> (error \<times> ('t, 'y) event list) + ('t, 'y) frame"
where
  "step_arrays cast_t cast_y step i fr =
     (case getitem (t_arr fr) (i - 1) of
        Inl e \<Rightarrow> Inl (e, calls fr)
      | Inr a \<Rightarrow>
         (case getitem (y_arr fr) (i - 1) of
            Inl e \<Rightarrow> Inl (e, calls fr)
          | Inr b \<Rightarrow>
             (case step a b of (t', y') \<Rightarrow>
                (case setitem cast_t (t_arr fr) i t' of
                   Inl e \<Rightarrow> Inl (e, calls fr @ [Advance a b])
                 | Inr ta \<Rightarrow>
                    (case setitem cast_y (y_arr fr) i y' of
                       Inl e \<Rightarrow> Inl (e, calls fr @ [Advance a b])
                     | Inr ya \<Rightarrow>
                        Inr (fr\<lparr>var_i := Some i, t_arr := ta, y_arr := ya,
                                calls := calls fr @ [Advance a b]\<rparr>))))))"

text \<open>\<open>t_arr[i], y_arr[i, :] = t, y\<close>; \<open>i\<close> is read, and may be unbound.\<close>

definition record_sample ::
  "('t \<Rightarrow> 't) \<Rightarrow> ('y \<Rightarrow> 'y) \<Rightarrow> ('t, 'y) frame \<Rightarrow> (error \<times> ('t, 'y) event list) + ('t, 'y) frame"
where
  "record_sample cast_t cast_y fr =
     (case var_i fr of
        None \<Rightarrow> Inl (UnboundLocalError, calls fr)
      | Some i \<Rightarrow>
         (case setitem cast_t (t_arr fr) i (var_t fr) of
            Inl e \<Rightarrow> Inl (e, calls fr)
          | Inr ta \<Rightarrow>
             (case setitem cast_y (y_arr fr) i (var_y fr) of
                Inl e \<Rightarrow> Inl (e, calls fr)
              | Inr ya \<Rightarrow> Inr (fr\<lparr>t_arr := ta, y_arr := ya\<rparr>))))"

text \<open>
  \<open>if exitcond(t_arr[i], y_arr[i, :]):\<close>
  \<open>t_arr = np.delete(t_arr, range(i+1, nmax+1), 0)\<close>,
  \<open>y_arr = np.delete(y_arr, range(i+1, nmax+1), 0)\<close>, \<open>break\<close>.
  The result says whether the loop is left (\<open>True\<close>) and gives the frame.
\<close>

definition check_exit ::
  "('t \<Rightarrow> 'y \<Rightarrow> bool) \<Rightarrow> nat \<Rightarrow> nat \<Rightarrow> ('t, 'y) frame
     \<Rightarrow> (error \<times> ('t, 'y) event list) + (bool \<times> ('t, 'y) frame)"
where
  "check_exit ec nmax i fr =
     (case getitem (t_arr fr) i of
        Inl e \<Rightarrow> Inl (e, calls fr)
      | Inr a \<Rightarrow>
         (case getitem (y_arr fr) i of
            Inl e \<Rightarrow> Inl (e, calls fr)
          | Inr b \<Rightarrow>
             (if ec a b then
                (case np_delete (t_arr fr) [i + 1..<nmax + 1] of
                   Inl e \<Rightarrow> Inl (e, calls fr @ [Check a b])
                 | Inr ta \<Rightarrow>
                    (case np_delete (y_arr fr) [i + 1..<nmax + 1] of
                       Inl e \<Rightarrow> Inl (e, calls fr @ [Check a b])
                     | Inr ya \<Rightarrow>
                        Inr (True, fr\<lparr>t_arr := ta, y_arr := ya,
                                      calls := calls fr @ [Check a b]\<rparr>)))
              else Inr (False, fr\<lparr>calls := calls fr @ [Check a b]\<rparr>))))"

subsection \<open>The loops over the tracked indices\<close>

text \<open>Tracking every step, no exit condition: \<open>for i in range(1, nmax+1)\<close>.\<close>

fun track_all ::
  "('t \<Rightarrow> 't) \<Rightarrow> ('y \<Rightarrow> 'y) \<Rightarrow> ('t \<Rightarrow> 'y \<Rightarrow> 't \<times> 'y) \<Rightarrow> nat list \<Rightarrow> ('t, 'y) frame
     \<Rightarrow> (error \<times> ('t, 'y) event list) + ('t, 'y) frame"
where
  "track_all cast_t cast_y step [] fr = Inr fr"
| "track_all cast_t cast_y step (i # is) fr =
     (case step_arrays cast_t cast_y step i fr of Inl e \<Rightarrow> Inl e | Inr fr1 \<Rightarrow> track_all cast_t cast_y step is fr1)"

text \<open>Tracking every step, with an exit condition.\<close>

fun track_all_until ::
  "('t \<Rightarrow> 't) \<Rightarrow> ('y \<Rightarrow> 'y) \<Rightarrow> ('t \<Rightarrow> 'y \<Rightarrow> 't \<times> 'y) \<Rightarrow> ('t \<Rightarrow> 'y \<Rightarrow> bool) \<Rightarrow> nat \<Rightarrow> nat list \<Rightarrow> ('t, 'y) frame
     \<Rightarrow> (error \<times> ('t, 'y) event list) + ('t, 'y) frame"
where
  "track_all_until cast_t cast_y step ec nmax [] fr = Inr fr"
| "track_all_until cast_t cast_y step ec nmax (i # is) fr =
     (case step_arrays cast_t cast_y step i fr of
        Inl e \<Rightarrow> Inl e
      | Inr fr1 \<Rightarrow>
         (case check_exit ec nmax i fr1 of
            Inl e \<Rightarrow> Inl e
          | Inr (stop, fr2) \<Rightarrow>
             (if stop then Inr fr2 else track_all_until cast_t cast_y step ec nmax is fr2)))"

text \<open>
  Tracking every \<open>trackint\<close> steps, no exit condition: \<open>for i in range(1, ntrack)\<close>,
  each turn \<open>trackint\<close> steps and one recorded sample.
\<close>

fun track_every ::
  "('t \<Rightarrow> 't) \<Rightarrow> ('y \<Rightarrow> 'y) \<Rightarrow> ('t \<Rightarrow> 'y \<Rightarrow> 't \<times> 'y) \<Rightarrow> nat \<Rightarrow> nat list \<Rightarrow> ('t, 'y) frame
     \<Rightarrow> (error \<times> ('t, 'y) event list) + ('t, 'y) frame"
where
  "track_every cast_t cast_y step n [] fr = Inr fr"
| "track_every cast_t cast_y step n (i # is) fr =
     (case record_sample cast_t cast_y (substeps step n (fr\<lparr>var_i := Some i\<rparr>)) of
        Inl e \<Rightarrow> Inl e | Inr fr1 \<Rightarrow> track_every cast_t cast_y step n is fr1)"

text \<open>
  Tracking every \<open>trackint\<close> steps, with an exit condition:
  \<open>for i in range(1, nmax+1)\<close> with \<open>break\<close>; the \<open>else\<close> of the \<open>for\<close> runs when the
  loop was not left by \<open>break\<close>, which the returned flag (\<open>True\<close> after \<open>break\<close>) tells.
\<close>

fun track_every_until ::
  "('t \<Rightarrow> 't) \<Rightarrow> ('y \<Rightarrow> 'y) \<Rightarrow> ('t \<Rightarrow> 'y \<Rightarrow> 't \<times> 'y) \<Rightarrow> ('t \<Rightarrow> 'y \<Rightarrow> bool) \<Rightarrow> nat \<Rightarrow> nat \<Rightarrow> nat list \<Rightarrow> ('t, 'y) frame
     \<Rightarrow> (error \<times> ('t, 'y) event list) + (bool \<times> ('t, 'y) frame)"
where
  "track_every_until cast_t cast_y step ec nmax n [] fr = Inr (False, fr)"
| "track_every_until cast_t cast_y step ec nmax n (i # is) fr =
     (case record_sample cast_t cast_y (substeps step n (fr\<lparr>var_i := Some i\<rparr>)) of
        Inl e \<Rightarrow> Inl e
      | Inr fr1 \<Rightarrow>
         (case check_exit ec nmax i fr1 of
            Inl e \<Rightarrow> Inl e
          | Inr (stop, fr2) \<Rightarrow>
             (if stop then Inr (True, fr2)
              else track_every_until cast_t cast_y step ec nmax n is fr2)))"

subsection \<open>The driver\<close>

text \<open>What the function hands back: the calls made, and an exception or the returned pair.\<close>

definition returned ::
  "(error \<times> ('t, 'y) event list) + ('t, 'y) frame
     \<Rightarrow> ('t, 'y) event list \<times> (error + ('t, 'y) result)"
where
  "returned r =
     (case r of Inl (e, cs) \<Rightarrow> (cs, Inl e)
      | Inr fr \<Rightarrow> (calls fr, Inr (Trajectory (t_arr fr) (y_arr fr))))"

text \<open>The comparisons \<open>trackint == 1\<close> and \<open>trackint > 1\<close>.\<close>

fun eq_one :: "pyval \<Rightarrow> bool" where
  "eq_one PyNone = False"
| "eq_one (PyInt k) = (k = 1)"
| "eq_one (PyFloat r) = (r = 1)"

fun gt_one :: "pyval \<Rightarrow> bool" where
  "gt_one PyNone = False"
| "gt_one (PyInt k) = (k > 1)"
| "gt_one (PyFloat r) = (r > 1)"

text \<open>
  The branch \<open>trackint == 1\<close>. \<open>del t, y\<close> unbinds the two locals; nothing reads them
  afterwards, and the frame keeps their last values.
\<close>

definition every_step ::
  "('t \<Rightarrow> 't) \<Rightarrow> ('y \<Rightarrow> 'y) \<Rightarrow> (nat \<Rightarrow> 't) \<Rightarrow> (nat \<Rightarrow> 'y) \<Rightarrow> ('t \<Rightarrow> 'y \<Rightarrow> 't \<times> 'y) \<Rightarrow> 't \<Rightarrow> 'y \<Rightarrow> nat
     \<Rightarrow> ('t \<Rightarrow> 'y \<Rightarrow> bool) option \<Rightarrow> ('t, 'y) event list \<times> (error + ('t, 'y) result)"
where
  "every_step cast_t cast_y mem_t mem_y step t y nmax exitcond =
     (let fr = \<lparr>var_t = t, var_y = y, var_i = None,
                t_arr = (np_empty mem_t (nmax + 1))[0 := cast_t t],
                y_arr = (np_empty mem_y (nmax + 1))[0 := cast_y y],
                calls = []\<rparr>
      in case exitcond of
           None \<Rightarrow> returned (track_all cast_t cast_y step [1..<nmax + 1] fr)
         | Some ec \<Rightarrow> returned (track_all_until cast_t cast_y step ec nmax [1..<nmax + 1] fr))"

text \<open>
  The branch \<open>trackint > 1\<close>, for an integer \<open>trackint\<close>:
  \<open>ntrack = 1 + (nmax+trackint-1)//trackint\<close>, arrays of \<open>ntrack+1\<close> entries, the loop,
  and then \<open>nmax - (ntrack-2)*trackint\<close> more steps whose sample is stored at \<open>i\<close>.
\<close>

definition every_nth ::
  "('t \<Rightarrow> 't) \<Rightarrow> ('y \<Rightarrow> 'y) \<Rightarrow> (nat \<Rightarrow> 't) \<Rightarrow> (nat \<Rightarrow> 'y) \<Rightarrow> ('t \<Rightarrow> 'y \<Rightarrow> 't \<times> 'y) \<Rightarrow> 't \<Rightarrow> 'y \<Rightarrow> nat
     \<Rightarrow> ('t \<Rightarrow> 'y \<Rightarrow> bool) option \<Rightarrow> int \<Rightarrow> ('t, 'y) event list \<times> (error + ('t, 'y) result)"
where
  "every_nth cast_t cast_y mem_t mem_y step t y nmax exitcond trackint =
     (let ntrack = 1 + (int nmax + trackint - 1) div trackint;
          fr = \<lparr>var_t = t, var_y = y, var_i = None,
                t_arr = (np_empty mem_t (nat (ntrack + 1)))[0 := cast_t t],
                y_arr = (np_empty mem_y (nat (ntrack + 1)))[0 := cast_y y],
                calls = []\<rparr>;
          rest = nat (int nmax - (ntrack - 2) * trackint)
      in case exitcond of
           None \<Rightarrow>
             (case track_every cast_t cast_y step (nat trackint) [1..<nat ntrack] fr of
                Inl e \<Rightarrow> returned (Inl e)
              | Inr fr1 \<Rightarrow> returned (record_sample cast_t cast_y (substeps step rest fr1)))
         | Some ec \<Rightarrow>
             (case track_every_until cast_t cast_y step ec nmax (nat trackint) [1..<nmax + 1] fr of
                Inl e \<Rightarrow> returned (Inl e)
              | Inr (stop, fr1) \<Rightarrow>
                  if stop then returned (Inr fr1)
                  else returned (record_sample cast_t cast_y (substeps step rest fr1))))"

text \<open>
  \<open>iterator\<close>. The first two arguments are the conversions to \<open>float64\<close> that storing
  into the tracking arrays makes, the next two the contents of the memory that the two
  \<open>np.empty\<close> calls find. A float \<open>trackint\<close> greater than one makes \<open>ntrack\<close> a float,
  which \<open>np.empty\<close> refuses with a TypeError (numpy 1.12 and later; before,
  \<open>range\<close> refuses it), in both cases before the first step.
\<close>

definition iterator ::
  "('t \<Rightarrow> 't) \<Rightarrow> ('y \<Rightarrow> 'y) \<Rightarrow> (nat \<Rightarrow> 't) \<Rightarrow> (nat \<Rightarrow> 'y) \<Rightarrow> ('t \<Rightarrow> 'y \<Rightarrow> 't \<times> 'y) \<Rightarrow> 't \<Rightarrow> 'y \<Rightarrow> nat
     \<Rightarrow> ('t \<Rightarrow> 'y \<Rightarrow> bool) option \<Rightarrow> pyval \<Rightarrow> ('t, 'y) event list \<times> (error + ('t, 'y) result)"
where
  "iterator cast_t cast_y mem_t mem_y step t y nmax exitcond trackint =
     (if trackint = PyNone then
        (let fr = \<lparr>var_t = t, var_y = y, var_i = None, t_arr = [], y_arr = [], calls = []\<rparr>;
             fr1 = (case exitcond of None \<Rightarrow> substeps step nmax fr
                    | Some ec \<Rightarrow> steps_until step ec nmax fr)
         in (calls fr1, Inr (FinalState (var_t fr1) (var_y fr1))))
      else if eq_one trackint then every_step cast_t cast_y mem_t mem_y step t y nmax exitcond
      else if gt_one trackint then
        (case trackint of
           PyInt k \<Rightarrow> every_nth cast_t cast_y mem_t mem_y step t y nmax exitcond k
         | _ \<Rightarrow> ([], Inl TypeError))
      else ([], Inl SystemExit))"

subsection \<open>Iterating the advance operation\<close>

text \<open>The sample after \<open>k\<close> applications of \<open>step\<close> to \<open>(t, y)\<close>.\<close>

definition sample :: "('t \<Rightarrow> 'y \<Rightarrow> 't \<times> 'y) \<Rightarrow> 't \<Rightarrow> 'y \<Rightarrow> nat \<Rightarrow> 't \<times> 'y" where
  "sample step t y k = ((\<lambda>(a, b). step a b) ^^ k) (t, y)"

text \<open>
  The advance operation as the branch \<open>trackint == 1\<close> applies it: the next sample is
  computed from the stored one and is stored in turn.
\<close>

definition stored ::
  "('t \<Rightarrow> 't) \<Rightarrow> ('y \<Rightarrow> 'y) \<Rightarrow> ('t \<Rightarrow> 'y \<Rightarrow> 't \<times> 'y) \<Rightarrow> 't \<Rightarrow> 'y \<Rightarrow> 't \<times> 'y"
where
  "stored cast_t cast_y step a b = (case step a b of (t', y') \<Rightarrow> (cast_t t', cast_y y'))"

text \<open>
  The initial sample and the \<open>n\<close> samples after it are values that storing leaves as
  they are, that is, \<open>float64\<close> values.
\<close>

definition storable ::
  "('t \<Rightarrow> 't) \<Rightarrow> ('y \<Rightarrow> 'y) \<Rightarrow> ('t \<Rightarrow> 'y \<Rightarrow> 't \<times> 'y) \<Rightarrow> 't \<Rightarrow> 'y \<Rightarrow> nat \<Rightarrow> bool"
where
  "storable cast_t cast_y step t y n =
     list_all (\<lambda>i. case sample step t y i of (a, b) \<Rightarrow> cast_t a = a \<and> cast_y b = b) [0..<n + 1]"

text \<open>The calls \<open>step\<close> receives when applied \<open>k\<close> times in a row from sample number \<open>m\<close>.\<close>

definition advances :: "('t \<Rightarrow> 'y \<Rightarrow> 't \<times> 'y) \<Rightarrow> 't \<Rightarrow> 'y \<Rightarrow> nat \<Rightarrow> nat \<Rightarrow> ('t, 'y) event list" where
  "advances step t y m k = map (\<lambda>j. case sample step t y j of (a, b) \<Rightarrow> Advance a b) [m..<m + k]"

subsection \<open>Calls of the loop with an exit condition\<close>

text \<open>
  Turn number \<open>j + 1\<close> of the loop that tracks every \<open>N\<close> steps under an exit condition
  makes \<open>N\<close> calls of the advance operation, from sample number \<open>j * N\<close> on, and then one
  call of the exit condition, on sample number \<open>(j + 1) * N\<close> as it was stored.
\<close>

definition turn_calls ::
  "('t \<Rightarrow> 't) \<Rightarrow> ('y \<Rightarrow> 'y) \<Rightarrow> ('t \<Rightarrow> 'y \<Rightarrow> 't \<times> 'y) \<Rightarrow> 't \<Rightarrow> 'y \<Rightarrow> nat \<Rightarrow> nat
     \<Rightarrow> ('t, 'y) event list"
where
  "turn_calls cast_t cast_y step t y N j =
     advances step t y (j * N) N
       @ [case sample step t y (Suc j * N) of (a, b) \<Rightarrow> Check (cast_t a) (cast_y b)]"

text \<open>The calls of the first \<open>k\<close> turns.\<close>

definition turns ::
  "('t \<Rightarrow> 't) \<Rightarrow> ('y \<Rightarrow> 'y) \<Rightarrow> ('t \<Rightarrow> 'y \<Rightarrow> 't \<times> 'y) \<Rightarrow> 't \<Rightarrow> 'y \<Rightarrow> nat \<Rightarrow> nat
     \<Rightarrow> ('t, 'y) event list"
where
  "turns cast_t cast_y step t y N k =
     concat (map (turn_calls cast_t cast_y step t y N) [0..<k])"

text \<open>The exit condition holds on the sample that turn number \<open>q\<close> stores, as stored.\<close>

definition fires ::
  "('t \<Rightarrow> 't) \<Rightarrow> ('y \<Rightarrow> 'y) \<Rightarrow> ('t \<Rightarrow> 'y \<Rightarrow> bool) \<Rightarrow> ('t \<Rightarrow> 'y \<Rightarrow> 't \<times> 'y) \<Rightarrow> 't \<Rightarrow> 'y
     \<Rightarrow> nat \<Rightarrow> nat \<Rightarrow> bool"
where
  "fires cast_t cast_y ec step t y N q =
     (case sample step t y (q * N) of (a, b) \<Rightarrow> ec (cast_t a) (cast_y b))"



section \<open>The driver over an explicit store\<close>

text \<open>
  For the claims about who shares which array, the same function is modelled again with
  the arrays in a store. An address is an index into the list of objects allocated so far;
  allocation appends. The state vector \<open>y\<close> that the caller passes is a reference into
  the store, and so are \<open>t_arr\<close> and \<open>y_arr\<close>; the time \<open>t\<close> is a Python float, a value.
\<close>

datatype ('t, 'y) obj = Vec 'y | TArr "'t list" | YArr "'y list"

text \<open>
  \<open>Vec v\<close> is a one-dimensional array with content \<open>v\<close>, \<open>TArr\<close> the array of times,
  \<open>YArr\<close> the two-dimensional array of state vectors, a list of rows.
\<close>

datatype 't ref_result = FinalRef 't nat | TrajectoryRef nat nat

record ('t, 'y) hframe =
  heap :: "('t, 'y) obj list"
  val_t :: 't
  ref_y :: nat
  idx_i :: "nat option"
  ref_t_arr :: nat
  ref_y_arr :: nat

subsection \<open>Store operations\<close>

definition alloc :: "('t, 'y) obj list \<Rightarrow> ('t, 'y) obj \<Rightarrow> ('t, 'y) obj list \<times> nat" where
  "alloc h ob = (h @ [ob], length h)"

text \<open>
  Reading through a reference. A reference that does not lead to an array of the expected
  kind cannot come from Python code that holds such an array; the model answers it with a
  TypeError.
\<close>

definition load_vec :: "('t, 'y) obj list \<Rightarrow> nat \<Rightarrow> error + 'y" where
  "load_vec h a =
     (if a < length h then (case h ! a of Vec v \<Rightarrow> Inr v | _ \<Rightarrow> Inl TypeError)
      else Inl TypeError)"

definition load_times :: "('t, 'y) obj list \<Rightarrow> nat \<Rightarrow> error + 't list" where
  "load_times h a =
     (if a < length h then (case h ! a of TArr xs \<Rightarrow> Inr xs | _ \<Rightarrow> Inl TypeError)
      else Inl TypeError)"

definition load_rows :: "('t, 'y) obj list \<Rightarrow> nat \<Rightarrow> error + 'y list" where
  "load_rows h a =
     (if a < length h then (case h ! a of YArr rows \<Rightarrow> Inr rows | _ \<Rightarrow> Inl TypeError)
      else Inl TypeError)"

text \<open>\<open>t_arr[k]\<close> and \<open>y_arr[k, :]\<close>, read.\<close>

definition load_t :: "('t, 'y) obj list \<Rightarrow> nat \<Rightarrow> nat \<Rightarrow> error + 't" where
  "load_t h a k = (case load_times h a of Inl e \<Rightarrow> Inl e | Inr xs \<Rightarrow> getitem xs k)"

definition load_row :: "('t, 'y) obj list \<Rightarrow> nat \<Rightarrow> nat \<Rightarrow> error + 'y" where
  "load_row h a k = (case load_rows h a of Inl e \<Rightarrow> Inl e | Inr rows \<Rightarrow> getitem rows k)"

text \<open>
  \<open>t_arr[k] = x\<close> and \<open>y_arr[k, :] = v\<close>: the array at the address is changed in place,
  and what is assigned is converted.
\<close>

definition store_t ::
  "('t \<Rightarrow> 't) \<Rightarrow> ('t, 'y) obj list \<Rightarrow> nat \<Rightarrow> nat \<Rightarrow> 't \<Rightarrow> error + ('t, 'y) obj list"
where
  "store_t cast_t h a k x =
     (case load_times h a of
        Inl e \<Rightarrow> Inl e
      | Inr xs \<Rightarrow>
          (case setitem cast_t xs k x of Inl e \<Rightarrow> Inl e | Inr xs' \<Rightarrow> Inr (h[a := TArr xs'])))"

definition store_row ::
  "('y \<Rightarrow> 'y) \<Rightarrow> ('t, 'y) obj list \<Rightarrow> nat \<Rightarrow> nat \<Rightarrow> 'y \<Rightarrow> error + ('t, 'y) obj list"
where
  "store_row cast_y h a k v =
     (case load_rows h a of
        Inl e \<Rightarrow> Inl e
      | Inr rows \<Rightarrow>
          (case setitem cast_y rows k v of
             Inl e \<Rightarrow> Inl e | Inr rows' \<Rightarrow> Inr (h[a := YArr rows'])))"

text \<open>\<open>np.delete\<close> returns a new array; the old one stays as it is.\<close>

definition delete_times ::
  "('t, 'y) obj list \<Rightarrow> nat \<Rightarrow> nat list \<Rightarrow> error + ('t, 'y) obj list \<times> nat"
where
  "delete_times h a obj =
     (case load_times h a of
        Inl e \<Rightarrow> Inl e
      | Inr xs \<Rightarrow> (case np_delete xs obj of Inl e \<Rightarrow> Inl e | Inr xs' \<Rightarrow> Inr (alloc h (TArr xs'))))"

definition delete_rows ::
  "('t, 'y) obj list \<Rightarrow> nat \<Rightarrow> nat list \<Rightarrow> error + ('t, 'y) obj list \<times> nat"
where
  "delete_rows h a obj =
     (case load_rows h a of
        Inl e \<Rightarrow> Inl e
      | Inr rows \<Rightarrow>
          (case np_delete rows obj of Inl e \<Rightarrow> Inl e | Inr rows' \<Rightarrow> Inr (alloc h (YArr rows'))))"

subsection \<open>The statements of the loops, over the store\<close>

text \<open>
  Modelled from the spec: the advance operation, which \<open>setstep\<close> of the module
  \<open>stepsetter\<close> builds and which is not modelled here. The spec makes it ``a pure function
  of its two arguments'' with ``no side effects beyond computing the next sample'', and
  the exit condition ``a pure predicate'': \<open>step\<close> and \<open>exitcond\<close> are functions of the
  time and of the content of the array they are handed, and the state vector that
  \<open>step\<close> returns is put into a new array.

  \<open>t, y = step(t, y)\<close>: the name \<open>y\<close> is bound to the new array.
\<close>

definition step_vars_h ::
  "('t \<Rightarrow> 'y \<Rightarrow> 't \<times> 'y) \<Rightarrow> ('t, 'y) hframe \<Rightarrow> (error \<times> ('t, 'y) obj list) + ('t, 'y) hframe"
where
  "step_vars_h step fr =
     (case load_vec (heap fr) (ref_y fr) of
        Inl e \<Rightarrow> Inl (e, heap fr)
      | Inr v \<Rightarrow>
          (case step (val_t fr) v of (t', v') \<Rightarrow>
             (case alloc (heap fr) (Vec v') of (h', a) \<Rightarrow>
                Inr (fr\<lparr>heap := h', val_t := t', ref_y := a\<rparr>))))"

fun substeps_h ::
  "('t \<Rightarrow> 'y \<Rightarrow> 't \<times> 'y) \<Rightarrow> nat \<Rightarrow> ('t, 'y) hframe
     \<Rightarrow> (error \<times> ('t, 'y) obj list) + ('t, 'y) hframe"
where
  "substeps_h step 0 fr = Inr fr"
| "substeps_h step (Suc k) fr =
     (case step_vars_h step fr of Inl e \<Rightarrow> Inl e | Inr fr1 \<Rightarrow> substeps_h step k fr1)"

fun steps_until_h ::
  "('t \<Rightarrow> 'y \<Rightarrow> 't \<times> 'y) \<Rightarrow> ('t \<Rightarrow> 'y \<Rightarrow> bool) \<Rightarrow> nat \<Rightarrow> ('t, 'y) hframe
     \<Rightarrow> (error \<times> ('t, 'y) obj list) + ('t, 'y) hframe"
where
  "steps_until_h step ec 0 fr = Inr fr"
| "steps_until_h step ec (Suc k) fr =
     (case step_vars_h step fr of
        Inl e \<Rightarrow> Inl e
      | Inr fr1 \<Rightarrow>
          (case load_vec (heap fr1) (ref_y fr1) of
             Inl e \<Rightarrow> Inl (e, heap fr1)
           | Inr v \<Rightarrow> (if ec (val_t fr1) v then Inr fr1 else steps_until_h step ec k fr1)))"

text \<open>
  \<open>t_arr[i], y_arr[i, :] = step(t_arr[i-1], y_arr[i-1, :])\<close>: \<open>step\<close> is handed a view
  of row \<open>i-1\<close> and returns a new array, whose content is copied into row \<open>i\<close>.
\<close>

definition step_arrays_h ::
  "('t \<Rightarrow> 't) \<Rightarrow> ('y \<Rightarrow> 'y) \<Rightarrow> ('t \<Rightarrow> 'y \<Rightarrow> 't \<times> 'y) \<Rightarrow> nat \<Rightarrow> ('t, 'y) hframe
     \<Rightarrow> (error \<times> ('t, 'y) obj list) + ('t, 'y) hframe"
where
  "step_arrays_h cast_t cast_y step i fr =
     (case load_t (heap fr) (ref_t_arr fr) (i - 1) of
        Inl e \<Rightarrow> Inl (e, heap fr)
      | Inr a \<Rightarrow>
         (case load_row (heap fr) (ref_y_arr fr) (i - 1) of
            Inl e \<Rightarrow> Inl (e, heap fr)
          | Inr b \<Rightarrow>
             (case step a b of (t', v') \<Rightarrow>
                (case alloc (heap fr) (Vec v') of (h1, r) \<Rightarrow>
                   (case store_t cast_t h1 (ref_t_arr fr) i t' of
                      Inl e \<Rightarrow> Inl (e, h1)
                    | Inr h2 \<Rightarrow>
                       (case store_row cast_y h2 (ref_y_arr fr) i v' of
                          Inl e \<Rightarrow> Inl (e, h2)
                        | Inr h3 \<Rightarrow> Inr (fr\<lparr>heap := h3, idx_i := Some i\<rparr>)))))))"

text \<open>\<open>t_arr[i], y_arr[i, :] = t, y\<close>: the content of \<open>y\<close> is copied into row \<open>i\<close>.\<close>

definition record_sample_h ::
  "('t \<Rightarrow> 't) \<Rightarrow> ('y \<Rightarrow> 'y) \<Rightarrow> ('t, 'y) hframe \<Rightarrow> (error \<times> ('t, 'y) obj list) + ('t, 'y) hframe"
where
  "record_sample_h cast_t cast_y fr =
     (case idx_i fr of
        None \<Rightarrow> Inl (UnboundLocalError, heap fr)
      | Some i \<Rightarrow>
         (case store_t cast_t (heap fr) (ref_t_arr fr) i (val_t fr) of
            Inl e \<Rightarrow> Inl (e, heap fr)
          | Inr h1 \<Rightarrow>
             (case load_vec h1 (ref_y fr) of
                Inl e \<Rightarrow> Inl (e, h1)
              | Inr v \<Rightarrow>
                 (case store_row cast_y h1 (ref_y_arr fr) i v of
                    Inl e \<Rightarrow> Inl (e, h1)
                  | Inr h2 \<Rightarrow> Inr (fr\<lparr>heap := h2\<rparr>)))))"

text \<open>
  The exit test on the stored sample; when it holds, \<open>t_arr\<close> and \<open>y_arr\<close> are bound to
  the new arrays that \<open>np.delete\<close> returns.
\<close>

definition check_exit_h ::
  "('t \<Rightarrow> 'y \<Rightarrow> bool) \<Rightarrow> nat \<Rightarrow> nat \<Rightarrow> ('t, 'y) hframe
     \<Rightarrow> (error \<times> ('t, 'y) obj list) + (bool \<times> ('t, 'y) hframe)"
where
  "check_exit_h ec nmax i fr =
     (case load_t (heap fr) (ref_t_arr fr) i of
        Inl e \<Rightarrow> Inl (e, heap fr)
      | Inr a \<Rightarrow>
         (case load_row (heap fr) (ref_y_arr fr) i of
            Inl e \<Rightarrow> Inl (e, heap fr)
          | Inr b \<Rightarrow>
             (if ec a b then
                (case delete_times (heap fr) (ref_t_arr fr) [i + 1..<nmax + 1] of
                   Inl e \<Rightarrow> Inl (e, heap fr)
                 | Inr (h1, ta) \<Rightarrow>
                    (case delete_rows h1 (ref_y_arr fr) [i + 1..<nmax + 1] of
                       Inl e \<Rightarrow> Inl (e, h1)
                     | Inr (h2, ya) \<Rightarrow>
                        Inr (True, fr\<lparr>heap := h2, ref_t_arr := ta, ref_y_arr := ya\<rparr>)))
              else Inr (False, fr))))"

subsection \<open>The loops, over the store\<close>

fun track_all_h ::
  "('t \<Rightarrow> 't) \<Rightarrow> ('y \<Rightarrow> 'y) \<Rightarrow> ('t \<Rightarrow> 'y \<Rightarrow> 't \<times> 'y) \<Rightarrow> nat list \<Rightarrow> ('t, 'y) hframe
     \<Rightarrow> (error \<times> ('t, 'y) obj list) + ('t, 'y) hframe"
where
  "track_all_h cast_t cast_y step [] fr = Inr fr"
| "track_all_h cast_t cast_y step (i # is) fr =
     (case step_arrays_h cast_t cast_y step i fr of Inl e \<Rightarrow> Inl e | Inr fr1 \<Rightarrow> track_all_h cast_t cast_y step is fr1)"

fun track_all_until_h ::
  "('t \<Rightarrow> 't) \<Rightarrow> ('y \<Rightarrow> 'y) \<Rightarrow> ('t \<Rightarrow> 'y \<Rightarrow> 't \<times> 'y) \<Rightarrow> ('t \<Rightarrow> 'y \<Rightarrow> bool) \<Rightarrow> nat \<Rightarrow> nat list \<Rightarrow> ('t, 'y) hframe
     \<Rightarrow> (error \<times> ('t, 'y) obj list) + ('t, 'y) hframe"
where
  "track_all_until_h cast_t cast_y step ec nmax [] fr = Inr fr"
| "track_all_until_h cast_t cast_y step ec nmax (i # is) fr =
     (case step_arrays_h cast_t cast_y step i fr of
        Inl e \<Rightarrow> Inl e
      | Inr fr1 \<Rightarrow>
         (case check_exit_h ec nmax i fr1 of
            Inl e \<Rightarrow> Inl e
          | Inr (stop, fr2) \<Rightarrow>
             (if stop then Inr fr2 else track_all_until_h cast_t cast_y step ec nmax is fr2)))"

fun track_every_h ::
  "('t \<Rightarrow> 't) \<Rightarrow> ('y \<Rightarrow> 'y) \<Rightarrow> ('t \<Rightarrow> 'y \<Rightarrow> 't \<times> 'y) \<Rightarrow> nat \<Rightarrow> nat list \<Rightarrow> ('t, 'y) hframe
     \<Rightarrow> (error \<times> ('t, 'y) obj list) + ('t, 'y) hframe"
where
  "track_every_h cast_t cast_y step n [] fr = Inr fr"
| "track_every_h cast_t cast_y step n (i # is) fr =
     (case substeps_h step n (fr\<lparr>idx_i := Some i\<rparr>) of
        Inl e \<Rightarrow> Inl e
      | Inr fr1 \<Rightarrow>
         (case record_sample_h cast_t cast_y fr1 of
            Inl e \<Rightarrow> Inl e
          | Inr fr2 \<Rightarrow> track_every_h cast_t cast_y step n is fr2))"

fun track_every_until_h ::
  "('t \<Rightarrow> 't) \<Rightarrow> ('y \<Rightarrow> 'y) \<Rightarrow> ('t \<Rightarrow> 'y \<Rightarrow> 't \<times> 'y) \<Rightarrow> ('t \<Rightarrow> 'y \<Rightarrow> bool) \<Rightarrow> nat \<Rightarrow> nat \<Rightarrow> nat list \<Rightarrow> ('t, 'y) hframe
     \<Rightarrow> (error \<times> ('t, 'y) obj list) + (bool \<times> ('t, 'y) hframe)"
where
  "track_every_until_h cast_t cast_y step ec nmax n [] fr = Inr (False, fr)"
| "track_every_until_h cast_t cast_y step ec nmax n (i # is) fr =
     (case substeps_h step n (fr\<lparr>idx_i := Some i\<rparr>) of
        Inl e \<Rightarrow> Inl e
      | Inr fr1 \<Rightarrow>
         (case record_sample_h cast_t cast_y fr1 of
            Inl e \<Rightarrow> Inl e
          | Inr fr2 \<Rightarrow>
             (case check_exit_h ec nmax i fr2 of
                Inl e \<Rightarrow> Inl e
              | Inr (stop, fr3) \<Rightarrow>
                 (if stop then Inr (True, fr3)
                  else track_every_until_h cast_t cast_y step ec nmax n is fr3))))"

subsection \<open>The driver, over the store\<close>

text \<open>The store at the end, and an exception or the returned pair.\<close>

definition returned_h ::
  "(error \<times> ('t, 'y) obj list) + ('t, 'y) hframe
     \<Rightarrow> ('t, 'y) obj list \<times> (error + 't ref_result)"
where
  "returned_h r =
     (case r of Inl (e, h) \<Rightarrow> (h, Inl e)
      | Inr fr \<Rightarrow> (heap fr, Inr (TrajectoryRef (ref_t_arr fr) (ref_y_arr fr))))"

text \<open>
  \<open>t_arr = np.empty(n)\<close>, \<open>y_arr = np.empty((n, y.size))\<close>, \<open>t_arr[0] = t\<close>,
  \<open>y_arr[0, :] = y\<close>.
\<close>

definition setup_arrays ::
  "('t \<Rightarrow> 't) \<Rightarrow> ('y \<Rightarrow> 'y) \<Rightarrow> (nat \<Rightarrow> 't) \<Rightarrow> (nat \<Rightarrow> 'y) \<Rightarrow> nat \<Rightarrow> ('t, 'y) hframe
     \<Rightarrow> (error \<times> ('t, 'y) obj list) + ('t, 'y) hframe"
where
  "setup_arrays cast_t cast_y mem_t mem_y n fr =
     (case alloc (heap fr) (TArr (np_empty mem_t n)) of (h1, ta) \<Rightarrow>
        (case load_vec h1 (ref_y fr) of
           Inl e \<Rightarrow> Inl (e, h1)
         | Inr v \<Rightarrow>
            (case alloc h1 (YArr (np_empty mem_y n)) of (h2, ya) \<Rightarrow>
               (case store_t cast_t h2 ta 0 (val_t fr) of
                  Inl e \<Rightarrow> Inl (e, h2)
                | Inr h3 \<Rightarrow>
                   (case store_row cast_y h3 ya 0 v of
                      Inl e \<Rightarrow> Inl (e, h3)
                    | Inr h4 \<Rightarrow> Inr (fr\<lparr>heap := h4, ref_t_arr := ta, ref_y_arr := ya\<rparr>))))))"

definition every_step_h ::
  "('t \<Rightarrow> 't) \<Rightarrow> ('y \<Rightarrow> 'y) \<Rightarrow> (nat \<Rightarrow> 't) \<Rightarrow> (nat \<Rightarrow> 'y) \<Rightarrow> ('t \<Rightarrow> 'y \<Rightarrow> 't \<times> 'y) \<Rightarrow> ('t, 'y) hframe \<Rightarrow> nat
     \<Rightarrow> ('t \<Rightarrow> 'y \<Rightarrow> bool) option \<Rightarrow> ('t, 'y) obj list \<times> (error + 't ref_result)"
where
  "every_step_h cast_t cast_y mem_t mem_y step fr nmax exitcond =
     (case setup_arrays cast_t cast_y mem_t mem_y (nmax + 1) fr of
        Inl e \<Rightarrow> returned_h (Inl e)
      | Inr fr1 \<Rightarrow>
         (case exitcond of
            None \<Rightarrow> returned_h (track_all_h cast_t cast_y step [1..<nmax + 1] fr1)
          | Some ec \<Rightarrow> returned_h (track_all_until_h cast_t cast_y step ec nmax [1..<nmax + 1] fr1)))"

text \<open>The steps after the loop and their sample.\<close>

definition last_interval ::
  "('t \<Rightarrow> 't) \<Rightarrow> ('y \<Rightarrow> 'y) \<Rightarrow> ('t \<Rightarrow> 'y \<Rightarrow> 't \<times> 'y) \<Rightarrow> nat \<Rightarrow> ('t, 'y) hframe
     \<Rightarrow> (error \<times> ('t, 'y) obj list) + ('t, 'y) hframe"
where
  "last_interval cast_t cast_y step rest fr =
     (case substeps_h step rest fr of Inl e \<Rightarrow> Inl e | Inr fr1 \<Rightarrow> record_sample_h cast_t cast_y fr1)"

definition every_nth_h ::
  "('t \<Rightarrow> 't) \<Rightarrow> ('y \<Rightarrow> 'y) \<Rightarrow> (nat \<Rightarrow> 't) \<Rightarrow> (nat \<Rightarrow> 'y) \<Rightarrow> ('t \<Rightarrow> 'y \<Rightarrow> 't \<times> 'y) \<Rightarrow> ('t, 'y) hframe \<Rightarrow> nat
     \<Rightarrow> ('t \<Rightarrow> 'y \<Rightarrow> bool) option \<Rightarrow> int \<Rightarrow> ('t, 'y) obj list \<times> (error + 't ref_result)"
where
  "every_nth_h cast_t cast_y mem_t mem_y step fr nmax exitcond trackint =
     (let ntrack = 1 + (int nmax + trackint - 1) div trackint;
          rest = nat (int nmax - (ntrack - 2) * trackint)
      in case setup_arrays cast_t cast_y mem_t mem_y (nat (ntrack + 1)) fr of
           Inl e \<Rightarrow> returned_h (Inl e)
         | Inr fr0 \<Rightarrow>
            (case exitcond of
               None \<Rightarrow>
                 (case track_every_h cast_t cast_y step (nat trackint) [1..<nat ntrack] fr0 of
                    Inl e \<Rightarrow> returned_h (Inl e)
                  | Inr fr1 \<Rightarrow> returned_h (last_interval cast_t cast_y step rest fr1))
             | Some ec \<Rightarrow>
                 (case track_every_until_h cast_t cast_y step ec nmax (nat trackint) [1..<nmax + 1] fr0 of
                    Inl e \<Rightarrow> returned_h (Inl e)
                  | Inr (stop, fr1) \<Rightarrow>
                      (if stop then returned_h (Inr fr1)
                       else returned_h (last_interval cast_t cast_y step rest fr1)))))"

text \<open>
  \<open>iterator\<close> on the store \<open>h\<close>, with \<open>y\<close> the address of the caller's array. Before the
  arrays are set up the names \<open>t_arr\<close> and \<open>y_arr\<close> are unbound; the frame holds the
  address of the next allocation for them.
\<close>

definition iterator_h ::
  "('t \<Rightarrow> 't) \<Rightarrow> ('y \<Rightarrow> 'y) \<Rightarrow> (nat \<Rightarrow> 't) \<Rightarrow> (nat \<Rightarrow> 'y) \<Rightarrow> ('t \<Rightarrow> 'y \<Rightarrow> 't \<times> 'y) \<Rightarrow> ('t, 'y) obj list \<Rightarrow> 't \<Rightarrow> nat
     \<Rightarrow> nat \<Rightarrow> ('t \<Rightarrow> 'y \<Rightarrow> bool) option \<Rightarrow> pyval
     \<Rightarrow> ('t, 'y) obj list \<times> (error + 't ref_result)"
where
  "iterator_h cast_t cast_y mem_t mem_y step h t y nmax exitcond trackint =
     (let fr = \<lparr>heap = h, val_t = t, ref_y = y, idx_i = None,
                ref_t_arr = length h, ref_y_arr = length h\<rparr>
      in if trackint = PyNone then
           (case (case exitcond of None \<Rightarrow> substeps_h step nmax fr
                  | Some ec \<Rightarrow> steps_until_h step ec nmax fr) of
              Inl (e, h1) \<Rightarrow> (h1, Inl e)
            | Inr fr1 \<Rightarrow> (heap fr1, Inr (FinalRef (val_t fr1) (ref_y fr1))))
         else if eq_one trackint then every_step_h cast_t cast_y mem_t mem_y step fr nmax exitcond
         else if gt_one trackint then
           (case trackint of
              PyInt k \<Rightarrow> every_nth_h cast_t cast_y mem_t mem_y step fr nmax exitcond k
            | _ \<Rightarrow> (h, Inl TypeError))
         else (h, Inl SystemExit))"

subsection \<open>The default argument\<close>

text \<open>
  \<open>def iterator(..., y=np.zeros(6), ...)\<close>: the default value is computed once, when the
  \<open>def\<close> statement runs, and the function object keeps the reference. A call that
  passes no \<open>y\<close> gets that reference.
\<close>

definition np_zeros :: "nat \<Rightarrow> 'e::zero list" where
  "np_zeros n = replicate n 0"

definition define_iterator :: "('t, 'e::zero list) obj list \<Rightarrow> ('t, 'e list) obj list \<times> nat" where
  "define_iterator h = alloc h (Vec (np_zeros 6))"

definition call_iterator ::
  "nat \<Rightarrow> ('t \<Rightarrow> 't) \<Rightarrow> ('y \<Rightarrow> 'y) \<Rightarrow> (nat \<Rightarrow> 't) \<Rightarrow> (nat \<Rightarrow> 'y) \<Rightarrow> ('t \<Rightarrow> 'y \<Rightarrow> 't \<times> 'y) \<Rightarrow> ('t, 'y) obj list \<Rightarrow> 't
     \<Rightarrow> nat option \<Rightarrow> nat \<Rightarrow> ('t \<Rightarrow> 'y \<Rightarrow> bool) option \<Rightarrow> pyval
     \<Rightarrow> ('t, 'y) obj list \<times> (error + 't ref_result)"
where
  "call_iterator default_y cast_t cast_y mem_t mem_y step h t y nmax exitcond trackint =
     iterator_h cast_t cast_y mem_t mem_y step h t (case y of None \<Rightarrow> default_y | Some a \<Rightarrow> a)
       nmax exitcond trackint"

subsection \<open>What a run leaves alone\<close>

text \<open>The entries of the array of times, and the rows of the array of states, at an address.\<close>

definition t_entries :: "('t, 'y) obj list \<Rightarrow> nat \<Rightarrow> 't list" where
  "t_entries h a = (case load_times h a of Inl e \<Rightarrow> [] | Inr xs \<Rightarrow> xs)"

definition y_rows :: "('t, 'y) obj list \<Rightarrow> nat \<Rightarrow> 'y list" where
  "y_rows h a = (case load_rows h a of Inl e \<Rightarrow> [] | Inr rows \<Rightarrow> rows)"

text \<open>
  While a run tracks, the store still begins with the store \<open>s\<close> of the call, the two
  tracking arrays were allocated after it, their first entries are the initial sample,
  and a bound loop index is positive.
\<close>

definition arrays_at ::
  "('t, 'y) obj list \<Rightarrow> 't \<Rightarrow> 'y \<Rightarrow> ('t, 'y) obj list \<Rightarrow> nat \<Rightarrow> nat \<Rightarrow> bool"
where
  "arrays_at s t0 v h ta ya =
     (prefix s h \<and> length s \<le> ta \<and> length s \<le> ya
      \<and> take 1 (t_entries h ta) = [t0] \<and> take 1 (y_rows h ya) = [v])"

definition tracking :: "('t, 'y) obj list \<Rightarrow> 't \<Rightarrow> 'y \<Rightarrow> ('t, 'y) hframe \<Rightarrow> bool" where
  "tracking s t0 v fr =
     (arrays_at s t0 v (heap fr) (ref_t_arr fr) (ref_y_arr fr)
      \<and> (case idx_i fr of None \<Rightarrow> True | Some i \<Rightarrow> 0 < i))"

text \<open>An outcome of a tracking run: an exception with the store, or a frame.\<close>

definition tracked ::
  "('t, 'y) obj list \<Rightarrow> 't \<Rightarrow> 'y \<Rightarrow> (error \<times> ('t, 'y) obj list) + ('t, 'y) hframe \<Rightarrow> bool"
where
  "tracked s t0 v r = (case r of Inl (e, h) \<Rightarrow> prefix s h | Inr fr \<Rightarrow> tracking s t0 v fr)"

subsection \<open>What the caller sees\<close>

text \<open>The returned pair with the references followed into the store.\<close>

definition deref :: "('t, 'y) obj list \<Rightarrow> 't ref_result \<Rightarrow> error + ('t, 'y) result" where
  "deref h r =
     (case r of
        FinalRef t a \<Rightarrow>
          (case load_vec h a of Inl e \<Rightarrow> Inl e | Inr v \<Rightarrow> Inr (FinalState t v))
      | TrajectoryRef ta ya \<Rightarrow>
          (case load_times h ta of
             Inl e \<Rightarrow> Inl e
           | Inr xs \<Rightarrow>
               (case load_rows h ya of Inl e \<Rightarrow> Inl e | Inr rows \<Rightarrow> Inr (Trajectory xs rows))))"

definition seen :: "('t, 'y) obj list \<times> (error + 't ref_result) \<Rightarrow> error + ('t, 'y) result" where
  "seen p = (case p of (h, res) \<Rightarrow> (case res of Inl e \<Rightarrow> Inl e | Inr r \<Rightarrow> deref h r))"

text \<open>
  A frame of the first model and a frame over the store agree when the locals hold the
  same values and the references lead to the same contents.
\<close>

definition locals_agree :: "('t, 'y) frame \<Rightarrow> ('t, 'y) hframe \<Rightarrow> bool" where
  "locals_agree fr hf =
     (var_t fr = val_t hf \<and> load_vec (heap hf) (ref_y hf) = Inr (var_y fr)
      \<and> var_i fr = idx_i hf)"

definition arrays_agree :: "('t, 'y) frame \<Rightarrow> ('t, 'y) hframe \<Rightarrow> bool" where
  "arrays_agree fr hf =
     (load_times (heap hf) (ref_t_arr hf) = Inr (t_arr fr)
      \<and> load_rows (heap hf) (ref_y_arr hf) = Inr (y_arr fr))"

definition agree :: "('t, 'y) frame \<Rightarrow> ('t, 'y) hframe \<Rightarrow> bool" where
  "agree fr hf = (locals_agree fr hf \<and> arrays_agree fr hf)"

definition outcomes_agree ::
  "(error \<times> ('t, 'y) event list) + ('t, 'y) frame
     \<Rightarrow> (error \<times> ('t, 'y) obj list) + ('t, 'y) hframe \<Rightarrow> bool"
where
  "outcomes_agree r rh =
     (case r of
        Inl (e, cs) \<Rightarrow> (case rh of Inl (e', h) \<Rightarrow> e = e' | Inr hf \<Rightarrow> False)
      | Inr fr \<Rightarrow> (case rh of Inl x \<Rightarrow> False | Inr hf \<Rightarrow> agree fr hf))"

section \<open>Test doubles\<close>

text \<open>
  A counting advance operation on natural numbers, two memory contents for \<open>np.empty\<close>,
  and exit conditions that hold always and never.
\<close>

definition tick :: "nat \<Rightarrow> nat \<Rightarrow> nat \<times> nat" where
  "tick t y = (t + 1, y + 2)"

definition blank :: "nat \<Rightarrow> nat" where
  "blank k = 0"

definition stale :: "nat \<Rightarrow> nat" where
  "stale k = 99"

definition always :: "nat \<Rightarrow> nat \<Rightarrow> bool" where
  "always t y = True"

definition never :: "nat \<Rightarrow> nat \<Rightarrow> bool" where
  "never t y = False"

text \<open>
  The conversion of a natural number to \<open>float64\<close>: the nearest number of 53 significant
  bits, the even one of two that are equally near. (From \<open>2 ^ 1024\<close> on numpy refuses the
  conversion; the runs below stay far from there.) A vector is converted entry by entry,
  \<open>map float64\<close>.
\<close>

fun bit_length :: "nat \<Rightarrow> nat" where
  "bit_length n = (if n = 0 then 0 else Suc (bit_length (n div 2)))"

declare bit_length.simps [simp del]

definition float64 :: "nat \<Rightarrow> nat" where
  "float64 n =
     (let e = bit_length n - 53; q = n div 2 ^ e; r = n mod 2 ^ e
      in if 2 * r < 2 ^ e \<or> (2 * r = 2 ^ e \<and> even q) then q * 2 ^ e else (q + 1) * 2 ^ e)"

text \<open>An advance operation on vectors, and a memory content for arrays of vectors.\<close>

definition bump :: "nat \<Rightarrow> nat list \<Rightarrow> nat \<times> nat list" where
  "bump t y = (t + 1, map Suc y)"

definition stale_rows :: "nat \<Rightarrow> nat list" where
  "stale_rows k = replicate 6 99"

text \<open>An exit condition that holds once the time has reached \<open>T\<close>.\<close>

definition reached :: "nat \<Rightarrow> nat \<Rightarrow> nat \<Rightarrow> bool" where
  "reached T t y = (T \<le> t)"

section \<open>Properties\<close>

subsection \<open>Samples and calls\<close>

lemma sample_0: "sample step t y 0 = (t, y)"
  by (simp add: sample_def)

lemma sample_Suc: "sample step t y (Suc k) = (case sample step t y k of (a, b) \<Rightarrow> step a b)"
  by (simp add: sample_def)

lemma sample_shift:
  "sample step t y (Suc k) = (case step t y of (a, b) \<Rightarrow> sample step a b k)"
  by (simp add: sample_def funpow_swap1)

lemma sample_add:
  "sample step t y (m + k) = (case sample step t y m of (a, b) \<Rightarrow> sample step a b k)"
  unfolding sample_def by (subst add.commute) (simp add: funpow_add)

lemma advances_0: "advances step t y m 0 = []"
  by (simp add: advances_def)

lemma advances_snoc:
  "advances step t y m (Suc k) =
     advances step t y m k @ [case sample step t y (m + k) of (a, b) \<Rightarrow> Advance a b]"
  by (simp add: advances_def)

lemma advances_add:
  "advances step t y m (j + k) = advances step t y m j @ advances step t y (m + j) k"
proof -
  have "[m..<m + (j + k)] = [m..<m + j] @ [m + j..<m + j + k]"
    by (metis add.assoc upt_add_eq_append le_add1)
  then show ?thesis
    by (simp add: advances_def)
qed

lemma length_advances: "length (advances step t y m k) = k"
  by (simp add: advances_def)

text \<open>A frame whose locals hold sample number \<open>m\<close> of the run from \<open>(t0, y0)\<close>.\<close>

lemma step_vars_at:
  assumes "(var_t fr, var_y fr) = sample step t0 y0 m"
  shows "step_vars step fr =
           fr\<lparr>var_t := fst (sample step t0 y0 (Suc m)),
              var_y := snd (sample step t0 y0 (Suc m)),
              calls := calls fr @ advances step t0 y0 m 1\<rparr>"
proof -
  have s: "sample step t0 y0 m = (var_t fr, var_y fr)"
    using assms by simp
  have "sample step t0 y0 (Suc m) = step (var_t fr) (var_y fr)"
    by (simp add: sample_Suc s)
  moreover have "advances step t0 y0 m 1 = [Advance (var_t fr) (var_y fr)]"
    by (simp add: advances_def s)
  ultimately show ?thesis
    by (simp add: step_vars_def split: prod.splits)
qed

lemma substeps_at:
  assumes "(var_t fr, var_y fr) = sample step t0 y0 m"
  shows "substeps step k fr =
           fr\<lparr>var_t := fst (sample step t0 y0 (m + k)),
              var_y := snd (sample step t0 y0 (m + k)),
              calls := calls fr @ advances step t0 y0 m k\<rparr>"
  using assms
proof (induction k arbitrary: fr m)
  case 0
  have s: "sample step t0 y0 m = (var_t fr, var_y fr)"
    using 0 by simp
  show ?case by (simp add: advances_0 s)
next
  case (Suc k)
  let ?fr1 = "fr\<lparr>var_t := fst (sample step t0 y0 (Suc m)),
              var_y := snd (sample step t0 y0 (Suc m)),
              calls := calls fr @ advances step t0 y0 m 1\<rparr>"
  have st: "step_vars step fr = ?fr1"
    by (rule step_vars_at [OF Suc.prems])
  have "(var_t ?fr1, var_y ?fr1) = sample step t0 y0 (Suc m)" by simp
  from Suc.IH [OF this]
  have "substeps step k ?fr1 = ?fr1\<lparr>var_t := fst (sample step t0 y0 (Suc m + k)),
              var_y := snd (sample step t0 y0 (Suc m + k)),
              calls := calls ?fr1 @ advances step t0 y0 (Suc m) k\<rparr>" .
  moreover have "advances step t0 y0 m (Suc k) = advances step t0 y0 m 1 @ advances step t0 y0 (Suc m) k"
    using advances_add [of step t0 y0 m 1 k] by simp
  ultimately show ?case by (simp add: st)
qed

subsection \<open>Tracking off\<close>

text \<open>
  Claim C7. With tracking off and no exit condition, for every \<open>n\<close> the driver calls the
  advance operation exactly \<open>n\<close> times, call number \<open>j\<close> on the sample that \<open>j\<close>
  applications produced from the initial one, and returns the pair that \<open>n\<close>
  applications produce.
\<close>

theorem iterator_untracked_final:
  "iterator ct cy mem_t mem_y step t y n None PyNone =
     (advances step t y 0 n, Inr (case sample step t y n of (a, b) \<Rightarrow> FinalState a b))"
proof -
  let ?fr = "\<lparr>var_t = t, var_y = y, var_i = None, t_arr = [], y_arr = [], calls = []\<rparr>"
  have "(var_t ?fr, var_y ?fr) = sample step t y 0" by (simp add: sample_0)
  from substeps_at [OF this, of n]
  show ?thesis
    by (simp add: iterator_def split: prod.splits)
qed

subsection \<open>Tracking every step\<close>

lemma sample_step:
  "sample step t0 y0 m = (a, b) \<Longrightarrow> step a b = sample step t0 y0 (Suc m)"
  by (simp add: sample_Suc)

lemma step_arrays_at:
  assumes len: "length (t_arr fr) = L" "length (y_arr fr) = L"
    and i: "0 < i" "i < L"
    and prev: "(t_arr fr ! (i - 1), y_arr fr ! (i - 1)) = sample (stored ct cy step) t0 y0 (i - 1)"
  shows "step_arrays ct cy step i fr =
           Inr (fr\<lparr>var_i := Some i,
                   t_arr := (t_arr fr)[i := fst (sample (stored ct cy step) t0 y0 i)],
                   y_arr := (y_arr fr)[i := snd (sample (stored ct cy step) t0 y0 i)],
                   calls := calls fr @ advances (stored ct cy step) t0 y0 (i - 1) 1\<rparr>)"
proof -
  have s: "sample (stored ct cy step) t0 y0 (i - 1) = (t_arr fr ! (i - 1), y_arr fr ! (i - 1))"
    using prev by simp
  have "stored ct cy step (t_arr fr ! (i - 1)) (y_arr fr ! (i - 1)) = sample (stored ct cy step) t0 y0 (Suc (i - 1))"
    by (rule sample_step [OF s])
  then have nxt: "stored ct cy step (t_arr fr ! (i - 1)) (y_arr fr ! (i - 1)) = sample (stored ct cy step) t0 y0 i"
    using i by simp
  have adv: "advances (stored ct cy step) t0 y0 (i - 1) 1 = [Advance (t_arr fr ! (i - 1)) (y_arr fr ! (i - 1))]"
    using s by (simp add: advances_def)
  have g: "getitem (t_arr fr) (i - 1) = Inr (t_arr fr ! (i - 1))"
    "getitem (y_arr fr) (i - 1) = Inr (y_arr fr ! (i - 1))"
    using len i by (simp_all add: getitem_def)
  show ?thesis
    using len i g nxt [symmetric] adv
    by (simp add: step_arrays_def setitem_def stored_def split: prod.splits)
qed

lemma track_all_at:
  assumes "length (t_arr fr) = L" "length (y_arr fr) = L"
    and "0 < i" "i + k \<le> L"
    and "(t_arr fr ! (i - 1), y_arr fr ! (i - 1)) = sample (stored ct cy step) t0 y0 (i - 1)"
  shows "\<exists>fr'. track_all ct cy step [i..<i + k] fr = Inr fr'
           \<and> length (t_arr fr') = L \<and> length (y_arr fr') = L
           \<and> (\<forall>j<L. t_arr fr' ! j = (if i \<le> j \<and> j < i + k then fst (sample (stored ct cy step) t0 y0 j) else t_arr fr ! j))
           \<and> (\<forall>j<L. y_arr fr' ! j = (if i \<le> j \<and> j < i + k then snd (sample (stored ct cy step) t0 y0 j) else y_arr fr ! j))
           \<and> calls fr' = calls fr @ advances (stored ct cy step) t0 y0 (i - 1) k"
  using assms
proof (induction k arbitrary: i fr)
  case 0
  then show ?case by (auto simp: advances_0)
next
  case (Suc k)
  let ?fr1 = "fr\<lparr>var_i := Some i,
                   t_arr := (t_arr fr)[i := fst (sample (stored ct cy step) t0 y0 i)],
                   y_arr := (y_arr fr)[i := snd (sample (stored ct cy step) t0 y0 i)],
                   calls := calls fr @ advances (stored ct cy step) t0 y0 (i - 1) 1\<rparr>"
  have iL: "i < L" using Suc.prems by simp
  have st: "step_arrays ct cy step i fr = Inr ?fr1"
    using Suc.prems(1,2,3) iL Suc.prems(5) by (rule step_arrays_at)
  have upt: "[i..<i + Suc k] = i # [Suc i..<Suc i + k]"
    by (simp add: upt_conv_Cons)
  have p1: "length (t_arr ?fr1) = L" "length (y_arr ?fr1) = L"
    using Suc.prems by simp_all
  have p2: "0 < Suc i" "Suc i + k \<le> L" using Suc.prems by simp_all
  have p3: "(t_arr ?fr1 ! (Suc i - 1), y_arr ?fr1 ! (Suc i - 1)) = sample (stored ct cy step) t0 y0 (Suc i - 1)"
    using Suc.prems iL by simp
  from Suc.IH [OF p1 p2 p3] obtain fr' where
    r: "track_all ct cy step [Suc i..<Suc i + k] ?fr1 = Inr fr'"
    and l: "length (t_arr fr') = L" "length (y_arr fr') = L"
    and t: "\<forall>j<L. t_arr fr' ! j = (if Suc i \<le> j \<and> j < Suc i + k then fst (sample (stored ct cy step) t0 y0 j) else t_arr ?fr1 ! j)"
    and y: "\<forall>j<L. y_arr fr' ! j = (if Suc i \<le> j \<and> j < Suc i + k then snd (sample (stored ct cy step) t0 y0 j) else y_arr ?fr1 ! j)"
    and c: "calls fr' = calls ?fr1 @ advances (stored ct cy step) t0 y0 (Suc i - 1) k"
    by blast
  have run: "track_all ct cy step [i..<i + Suc k] fr = Inr fr'"
    by (simp only: upt track_all.simps st r sum.case)
  have t': "\<forall>j<L. t_arr fr' ! j = (if i \<le> j \<and> j < i + Suc k then fst (sample (stored ct cy step) t0 y0 j) else t_arr fr ! j)"
  proof (intro allI impI)
    fix j assume "j < L"
    then show "t_arr fr' ! j = (if i \<le> j \<and> j < i + Suc k then fst (sample (stored ct cy step) t0 y0 j) else t_arr fr ! j)"
      using t Suc.prems(1) iL by (cases "j = i") auto
  qed
  have y': "\<forall>j<L. y_arr fr' ! j = (if i \<le> j \<and> j < i + Suc k then snd (sample (stored ct cy step) t0 y0 j) else y_arr fr ! j)"
  proof (intro allI impI)
    fix j assume "j < L"
    then show "y_arr fr' ! j = (if i \<le> j \<and> j < i + Suc k then snd (sample (stored ct cy step) t0 y0 j) else y_arr fr ! j)"
      using y Suc.prems(2) iL by (cases "j = i") auto
  qed
  have "advances (stored ct cy step) t0 y0 (i - 1) (1 + k) = advances (stored ct cy step) t0 y0 (i - 1) 1 @ advances (stored ct cy step) t0 y0 (i - 1 + 1) k"
    by (rule advances_add)
  then have c': "calls fr' = calls fr @ advances (stored ct cy step) t0 y0 (i - 1) (Suc k)"
    using c Suc.prems(3) by simp
  from run l t' y' c' show ?case by blast
qed

text \<open>
  With \<open>trackint = 1\<close> and no exit condition, for every \<open>n\<close> the returned arrays have
  \<open>n + 1\<close> entries: entry \<open>0\<close> is the initial sample as stored, and entry \<open>i\<close> is what
  \<open>i\<close> rounds of advancing the stored sample and storing the result make of it. The
  advance operation is called \<open>n\<close> times.
\<close>

lemma iterator_every_step_stored:
  "iterator ct cy mem_t mem_y step t y n None (PyInt 1) =
     (advances (stored ct cy step) (ct t) (cy y) 0 n,
      Inr (Trajectory (map (\<lambda>i. fst (sample (stored ct cy step) (ct t) (cy y) i)) [0..<n + 1])
                      (map (\<lambda>i. snd (sample (stored ct cy step) (ct t) (cy y) i)) [0..<n + 1])))"
proof -
  let ?fr = "\<lparr>var_t = t, var_y = y, var_i = None,
                t_arr = (np_empty mem_t (n + 1))[0 := ct t],
                y_arr = (np_empty mem_y (n + 1))[0 := cy y],
                calls = []\<rparr>"
  have l: "length (t_arr ?fr) = n + 1" "length (y_arr ?fr) = n + 1"
    by (simp_all add: np_empty_def)
  have z: "(t_arr ?fr ! (1 - 1), y_arr ?fr ! (1 - 1)) = sample (stored ct cy step) (ct t) (cy y) (1 - 1)"
    by (simp add: np_empty_def sample_0 del: upt_Suc)
  have "(0::nat) < 1" "1 + n \<le> n + 1" by simp_all
  from track_all_at [OF l this z] obtain fr' where
    r: "track_all ct cy step [1..<1 + n] ?fr = Inr fr'"
    and l': "length (t_arr fr') = n + 1" "length (y_arr fr') = n + 1"
    and t: "\<forall>j<n + 1. t_arr fr' ! j = (if 1 \<le> j \<and> j < 1 + n then fst (sample (stored ct cy step) (ct t) (cy y) j) else t_arr ?fr ! j)"
    and ys: "\<forall>j<n + 1. y_arr fr' ! j = (if 1 \<le> j \<and> j < 1 + n then snd (sample (stored ct cy step) (ct t) (cy y) j) else y_arr ?fr ! j)"
    and c: "calls fr' = calls ?fr @ advances (stored ct cy step) (ct t) (cy y) (1 - 1) n"
    by blast
  have ta: "t_arr fr' = map (\<lambda>i. fst (sample (stored ct cy step) (ct t) (cy y) i)) [0..<n + 1]"
  proof (rule nth_equalityI)
    show "length (t_arr fr') = length (map (\<lambda>i. fst (sample (stored ct cy step) (ct t) (cy y) i)) [0..<n + 1])"
      using l' by simp
  next
    fix j assume "j < length (t_arr fr')"
    then have j: "j < n + 1" using l' by simp
    show "t_arr fr' ! j = map (\<lambda>i. fst (sample (stored ct cy step) (ct t) (cy y) i)) [0..<n + 1] ! j"
    proof (cases "j = 0")
      case True
      then show ?thesis using t j by (simp add: np_empty_def sample_0 del: upt_Suc)
    next
      case False
      then show ?thesis using t j by (simp add: nth_append del: upt_Suc)
    qed
  qed
  have ya: "y_arr fr' = map (\<lambda>i. snd (sample (stored ct cy step) (ct t) (cy y) i)) [0..<n + 1]"
  proof (rule nth_equalityI)
    show "length (y_arr fr') = length (map (\<lambda>i. snd (sample (stored ct cy step) (ct t) (cy y) i)) [0..<n + 1])"
      using l' by simp
  next
    fix j assume "j < length (y_arr fr')"
    then have j: "j < n + 1" using l' by simp
    show "y_arr fr' ! j = map (\<lambda>i. snd (sample (stored ct cy step) (ct t) (cy y) i)) [0..<n + 1] ! j"
    proof (cases "j = 0")
      case True
      then show ?thesis using ys j by (simp add: np_empty_def sample_0 del: upt_Suc)
    next
      case False
      then show ?thesis using ys j by (simp add: nth_append del: upt_Suc)
    qed
  qed
  have r': "track_all ct cy step [1..<n + 1] ?fr = Inr fr'"
    using r by (simp add: add.commute)
  have "every_step ct cy mem_t mem_y step t y n None = (calls fr', Inr (Trajectory (t_arr fr') (y_arr fr')))"
    unfolding every_step_def Let_def by (simp only: option.case r' returned_def sum.case)
  then show ?thesis
    using c ta ya by (simp add: iterator_def)
qed

lemma storable_at:
  assumes "storable ct cy step t y n" "i \<le> n"
  shows "ct (fst (sample step t y i)) = fst (sample step t y i)"
    and "cy (snd (sample step t y i)) = snd (sample step t y i)"
proof -
  have mem: "i \<in> set [0..<n + 1]" using assms(2) by (simp del: upt_Suc)
  have "\<forall>i\<in>set [0..<n + 1]. case sample step t y i of (a, b) \<Rightarrow> ct a = a \<and> cy b = b"
    using assms(1) by (simp add: storable_def list_all_iff del: upt_Suc)
  then have "case sample step t y i of (a, b) \<Rightarrow> ct a = a \<and> cy b = b"
    using mem by (rule bspec)
  then show "ct (fst (sample step t y i)) = fst (sample step t y i)"
    and "cy (snd (sample step t y i)) = snd (sample step t y i)"
    by (simp_all add: case_prod_beta)
qed

lemma sample_stored:
  assumes "storable ct cy step t y n" "i \<le> n"
  shows "sample (stored ct cy step) (ct t) (cy y) i = sample step t y i"
  using assms(2)
proof (induction i)
  case 0
  from storable_at [OF assms(1) 0] show ?case
    by (simp add: sample_0)
next
  case (Suc i)
  then have ih: "sample (stored ct cy step) (ct t) (cy y) i = sample step t y i"
    by simp
  obtain a b where ab: "sample step t y i = (a, b)" by (cases "sample step t y i")
  have nxt: "sample step t y (Suc i) = step a b"
    by (simp add: sample_Suc ab)
  from storable_at [OF assms(1) Suc.prems] have "ct (fst (step a b)) = fst (step a b)"
    "cy (snd (step a b)) = snd (step a b)"
    unfolding nxt by simp_all
  then have "stored ct cy step a b = step a b"
    by (simp add: stored_def case_prod_beta)
  then show ?case
    by (simp add: sample_Suc ih ab)
qed

text \<open>
  Claim C6, as amended. With \<open>trackint = 1\<close> and no exit condition, for every \<open>n\<close> such
  that the initial sample and the \<open>n\<close> samples after it are \<open>float64\<close> values, the
  returned arrays have \<open>n + 1\<close> entries, and entry \<open>i\<close> is the initial sample
  advanced \<open>i\<close> times (entry \<open>0\<close> the initial sample itself); the advance operation is
  called \<open>n\<close> times.
\<close>

theorem iterator_every_step_trajectory:
  assumes "storable ct cy step t y n"
  shows "iterator ct cy mem_t mem_y step t y n None (PyInt 1) =
     (advances step t y 0 n,
      Inr (Trajectory (map (\<lambda>i. fst (sample step t y i)) [0..<n + 1])
                      (map (\<lambda>i. snd (sample step t y i)) [0..<n + 1])))"
proof -
  have s: "sample (stored ct cy step) (ct t) (cy y) i = sample step t y i" if "i \<le> n" for i
    by (rule sample_stored [OF assms that])
  have a: "advances (stored ct cy step) (ct t) (cy y) 0 n = advances step t y 0 n"
    unfolding advances_def by (rule map_cong) (simp_all add: s)
  have f: "map (\<lambda>i. fst (sample (stored ct cy step) (ct t) (cy y) i)) [0..<n + 1] =
           map (\<lambda>i. fst (sample step t y i)) [0..<n + 1]"
    by (rule map_cong) (simp_all add: s del: upt_Suc)
  have g: "map (\<lambda>i. snd (sample (stored ct cy step) (ct t) (cy y) i)) [0..<n + 1] =
           map (\<lambda>i. snd (sample step t y i)) [0..<n + 1]"
    by (rule map_cong) (simp_all add: s del: upt_Suc)
  show ?thesis
    unfolding iterator_every_step_stored a f g ..
qed

theorem iterator_every_step_trajectory_witness:
  "storable float64 float64 tick 0 0 3
   \<and> iterator float64 float64 blank blank tick 0 0 3 None (PyInt 1) =
       ([Advance 0 0, Advance 1 2, Advance 2 4], Inr (Trajectory [0, 1, 2, 3] [0, 2, 4, 6]))"
proof -
  have h: "storable float64 float64 tick 0 0 3" by code_simp
  have a: "advances tick 0 0 0 3 = [Advance 0 0, Advance 1 2, Advance 2 4]" by code_simp
  have f: "map (\<lambda>i. fst (sample tick 0 0 i)) [0..<3 + 1] = [0, 1, 2, 3]" by code_simp
  have g: "map (\<lambda>i. snd (sample tick 0 0 i)) [0..<3 + 1] = [0, 2, 4, 6]" by code_simp
  from iterator_every_step_trajectory [OF h, of blank blank] h show ?thesis
    unfolding a f g by simp
qed

text \<open>The conversion of the test runs.\<close>

lemma bit_length_le: "n < 2 ^ k \<Longrightarrow> bit_length n \<le> k"
proof (induction k arbitrary: n)
  case 0
  then show ?case by (simp add: bit_length.simps)
next
  case (Suc k)
  then have "n div 2 < 2 ^ k" by simp
  then have "bit_length (n div 2) \<le> k" by (rule Suc.IH)
  then show ?case by (subst bit_length.simps) simp
qed

text \<open>Below \<open>2 ^ 53\<close> every natural number is a \<open>float64\<close> value.\<close>

lemma float64_small: "n < 2 ^ 53 \<Longrightarrow> float64 n = n"
  using bit_length_le [of n 53] by (simp add: float64_def)

lemma float64_rounds:
  "float64 9007199254740993 = 9007199254740992"
  "float64 9007199254740994 = 9007199254740994"
  by (simp_all add: float64_def bit_length.simps Let_def)

lemma iterator_every_step_rounded:
  "iterator float64 float64 blank blank tick 0 9007199254740993 1 None (PyInt 1) =
     ([Advance 0 9007199254740992],
      Inr (Trajectory [0, 1] [9007199254740992, 9007199254740994]))"
  by (simp add: iterator_def every_step_def returned_def np_empty_def step_arrays_def
      getitem_def setitem_def tick_def blank_def float64_rounds float64_small)

text \<open>
  Claim C6 as stated covers every initial sample. The state \<open>2 ^ 53 + 1\<close> is not a
  \<open>float64\<close> value: entry \<open>0\<close> of the returned array is \<open>2 ^ 53\<close>, and the next entry
  is computed from that.
\<close>

theorem iterator_every_step_rounded_counterexample:
  "snd (iterator float64 float64 blank blank tick 0 9007199254740993 1 None (PyInt 1))
     \<noteq> Inr (Trajectory [0, 1] [9007199254740993, 9007199254740995])"
  unfolding iterator_every_step_rounded by simp

subsection \<open>Tracking every \<open>trackint\<close> steps, no exit condition\<close>

lemma record_sample_at:
  assumes "var_i fr = Some i" "i < length (t_arr fr)" "length (y_arr fr) = length (t_arr fr)"
  shows "record_sample ct cy fr =
           Inr (fr\<lparr>t_arr := (t_arr fr)[i := ct (var_t fr)], y_arr := (y_arr fr)[i := cy (var_y fr)]\<rparr>)"
  using assms by (simp add: record_sample_def setitem_def)


text \<open>One turn of the loops that track every \<open>N\<close> steps: \<open>N\<close> steps, then the sample is stored.\<close>

lemma turn_at:
  assumes at: "(var_t fr, var_y fr) = sample step t0 y0 m"
    and len: "length (t_arr fr) = L" "length (y_arr fr) = L"
    and i: "i < L"
  shows "record_sample ct cy (substeps step N (fr\<lparr>var_i := Some i\<rparr>)) =
           Inr (fr\<lparr>var_t := fst (sample step t0 y0 (m + N)),
                   var_y := snd (sample step t0 y0 (m + N)),
                   var_i := Some i,
                   t_arr := (t_arr fr)[i := ct (fst (sample step t0 y0 (m + N)))],
                   y_arr := (y_arr fr)[i := cy (snd (sample step t0 y0 (m + N)))],
                   calls := calls fr @ advances step t0 y0 m N\<rparr>)"
proof -
  let ?fr0 = "fr\<lparr>var_i := Some i\<rparr>"
  have "(var_t ?fr0, var_y ?fr0) = sample step t0 y0 m"
    using at by simp
  from substeps_at [OF this, of N]
  have sub: "substeps step N ?fr0 =
           ?fr0\<lparr>var_t := fst (sample step t0 y0 (m + N)),
              var_y := snd (sample step t0 y0 (m + N)),
              calls := calls ?fr0 @ advances step t0 y0 m N\<rparr>" (is "_ = ?fr1") .
  have "record_sample ct cy ?fr1 =
           Inr (?fr1\<lparr>t_arr := (t_arr ?fr1)[i := ct (var_t ?fr1)], y_arr := (y_arr ?fr1)[i := cy (var_y ?fr1)]\<rparr>)"
    by (rule record_sample_at) (use len i in simp_all)
  then show ?thesis
    unfolding sub by simp
qed


lemma track_every_at:
  assumes "(var_t fr, var_y fr) = sample step t0 y0 (p * N)"
    and "length (t_arr fr) = L" "length (y_arr fr) = L"
    and "Suc p + k \<le> L"
  shows "\<exists>fr'. track_every ct cy step N [Suc p..<Suc p + k] fr = Inr fr'
           \<and> (var_t fr', var_y fr') = sample step t0 y0 ((p + k) * N)
           \<and> length (t_arr fr') = L \<and> length (y_arr fr') = L
           \<and> (\<forall>j<L. t_arr fr' ! j =
                 (if p < j \<and> j \<le> p + k then ct (fst (sample step t0 y0 (j * N))) else t_arr fr ! j))
           \<and> (\<forall>j<L. y_arr fr' ! j =
                 (if p < j \<and> j \<le> p + k then cy (snd (sample step t0 y0 (j * N))) else y_arr fr ! j))
           \<and> calls fr' = calls fr @ advances step t0 y0 (p * N) (k * N)
           \<and> var_i fr' = (if k = 0 then var_i fr else Some (p + k))"
  using assms
proof (induction k arbitrary: p fr)
  case 0
  then show ?case by (auto simp: advances_0)
next
  case (Suc k)
  have pN: "p * N + N = Suc p * N" by simp
  let ?fr1 = "fr\<lparr>var_t := fst (sample step t0 y0 (Suc p * N)),
                   var_y := snd (sample step t0 y0 (Suc p * N)),
                   var_i := Some (Suc p),
                   t_arr := (t_arr fr)[Suc p := ct (fst (sample step t0 y0 (Suc p * N)))],
                   y_arr := (y_arr fr)[Suc p := cy (snd (sample step t0 y0 (Suc p * N)))],
                   calls := calls fr @ advances step t0 y0 (p * N) N\<rparr>"
  have iL: "Suc p < L" using Suc.prems by simp
  have st: "record_sample ct cy (substeps step N (fr\<lparr>var_i := Some (Suc p)\<rparr>)) = Inr ?fr1"
    using turn_at [OF Suc.prems(1,2,3) iL, of ct cy N] unfolding pN .
  have upt: "[Suc p..<Suc p + Suc k] = Suc p # [Suc (Suc p)..<Suc (Suc p) + k]"
    by (simp add: upt_conv_Cons)
  have p0: "(var_t ?fr1, var_y ?fr1) = sample step t0 y0 (Suc p * N)" by simp
  have p1: "length (t_arr ?fr1) = L" "length (y_arr ?fr1) = L"
    using Suc.prems by simp_all
  have p2: "Suc (Suc p) + k \<le> L" using Suc.prems by simp
  from Suc.IH [OF p0 p1 p2] obtain fr' where
    r: "track_every ct cy step N [Suc (Suc p)..<Suc (Suc p) + k] ?fr1 = Inr fr'"
    and v: "(var_t fr', var_y fr') = sample step t0 y0 ((Suc p + k) * N)"
    and l: "length (t_arr fr') = L" "length (y_arr fr') = L"
    and t: "\<forall>j<L. t_arr fr' ! j =
                 (if Suc p < j \<and> j \<le> Suc p + k then ct (fst (sample step t0 y0 (j * N)))
                  else t_arr ?fr1 ! j)"
    and y: "\<forall>j<L. y_arr fr' ! j =
                 (if Suc p < j \<and> j \<le> Suc p + k then cy (snd (sample step t0 y0 (j * N)))
                  else y_arr ?fr1 ! j)"
    and c: "calls fr' = calls ?fr1 @ advances step t0 y0 (Suc p * N) (k * N)"
    and vi: "var_i fr' = (if k = 0 then var_i ?fr1 else Some (Suc p + k))"
    by blast
  have run: "track_every ct cy step N [Suc p..<Suc p + Suc k] fr = Inr fr'"
    by (simp only: upt track_every.simps st r sum.case)
  have v': "(var_t fr', var_y fr') = sample step t0 y0 ((p + Suc k) * N)"
    using v by simp
  have t': "\<forall>j<L. t_arr fr' ! j =
                 (if p < j \<and> j \<le> p + Suc k then ct (fst (sample step t0 y0 (j * N))) else t_arr fr ! j)"
  proof (intro allI impI)
    fix j assume jL: "j < L"
    consider "j = Suc p" | "Suc p < j" | "j \<le> p" by linarith
    then show "t_arr fr' ! j =
                 (if p < j \<and> j \<le> p + Suc k then ct (fst (sample step t0 y0 (j * N))) else t_arr fr ! j)"
    proof cases
      case 1
      then show ?thesis using t jL Suc.prems(2) iL by simp
    next
      case 2
      then show ?thesis using t jL by simp
    next
      case 3
      then show ?thesis using t jL by simp
    qed
  qed
  have y': "\<forall>j<L. y_arr fr' ! j =
                 (if p < j \<and> j \<le> p + Suc k then cy (snd (sample step t0 y0 (j * N))) else y_arr fr ! j)"
  proof (intro allI impI)
    fix j assume jL: "j < L"
    consider "j = Suc p" | "Suc p < j" | "j \<le> p" by linarith
    then show "y_arr fr' ! j =
                 (if p < j \<and> j \<le> p + Suc k then cy (snd (sample step t0 y0 (j * N))) else y_arr fr ! j)"
    proof cases
      case 1
      then show ?thesis using y jL Suc.prems(3) iL by simp
    next
      case 2
      then show ?thesis using y jL by simp
    next
      case 3
      then show ?thesis using y jL by simp
    qed
  qed
  have "advances step t0 y0 (p * N) (N + k * N) =
          advances step t0 y0 (p * N) N @ advances step t0 y0 (p * N + N) (k * N)"
    by (rule advances_add)
  then have c': "calls fr' = calls fr @ advances step t0 y0 (p * N) (Suc k * N)"
    using c by (simp add: add.commute)
  have vi': "var_i fr' = (if Suc k = 0 then var_i fr else Some (p + Suc k))"
    using vi by simp
  from run v' l t' y' c' vi' show ?case by blast
qed


lemma ceil_div_facts:
  fixes n :: nat and N :: int
  assumes "1 \<le> n" "1 < N"
  defines "c \<equiv> (int n + N - 1) div N"
  shows "1 \<le> c" "(c - 1) * N < int n" "int n \<le> c * N"
proof -
  have N: "0 < N" using assms by simp
  define r where "r = (int n + N - 1) mod N"
  have r: "0 \<le> r" "r < N"
    using N by (simp_all add: r_def)
  have eq: "int n + N - 1 = c * N + r"
    unfolding c_def r_def by simp
  have e2: "(c - 1) * N = int n - 1 - r"
    using eq by (simp add: algebra_simps)
  show "(c - 1) * N < int n"
    using e2 r by simp
  show "int n \<le> c * N"
    using eq r by simp
  have "N \<le> int n + N - 1" using assms by simp
  then have "N div N \<le> (int n + N - 1) div N"
    by (rule zdiv_mono1) (rule N)
  then show "1 \<le> c"
    using N by (simp add: c_def)
qed

lemma every_nth_no_exit:
  fixes n :: nat and N :: int
  assumes n: "1 \<le> n" and N: "1 < N"
  defines "c \<equiv> nat ((int n + N - 1) div N)"
  shows "every_nth ct cy mem_t mem_y step t y n None N =
           (advances step t y 0 (n + nat N),
            Inr (Trajectory
              (map (\<lambda>j. ct (fst (sample step t y (j * nat N)))) [0..<c]
                 @ [ct (fst (sample step t y (n + nat N))), mem_t (c + 1)])
              (map (\<lambda>j. cy (snd (sample step t y (j * nat N)))) [0..<c]
                 @ [cy (snd (sample step t y (n + nat N))), mem_y (c + 1)])))"
proof -
  define ci where "ci = (int n + N - 1) div N"
  define M where "M = nat N"
  have ci: "1 \<le> ci" "(ci - 1) * N < int n" "int n \<le> ci * N"
    unfolding ci_def using ceil_div_facts [OF n N] by simp_all
  have c_pos: "0 < c" and c_int: "int c = ci"
    using ci(1) by (simp_all add: c_def ci_def)
  have M_int: "int M = N" using N by (simp add: M_def)
  define rest where "rest = nat (int n - (1 + ci - 2) * N)"
  have rest_int: "int rest = int n - (ci - 1) * N"
    using ci(2) by (simp add: rest_def)
  have "int (c * M + rest) = int (n + M)"
    by (simp add: rest_int c_int M_int algebra_simps)
  then have total: "c * M + rest = n + M"
    by (simp only: of_nat_eq_iff)
  let ?L = "c + 2"
  have nt: "nat (1 + ci + 1) = ?L" "nat (1 + ci) = Suc 0 + c"
    using ci(1) c_int by simp_all
  let ?fr = "\<lparr>var_t = t, var_y = y, var_i = None,
                t_arr = (np_empty mem_t ?L)[0 := ct t],
                y_arr = (np_empty mem_y ?L)[0 := cy y],
                calls = []\<rparr>"
  have at: "(var_t ?fr, var_y ?fr) = sample step t y (0 * M)"
    by (simp add: sample_0)
  have len: "length (t_arr ?fr) = ?L" "length (y_arr ?fr) = ?L"
    by (simp_all add: np_empty_def)
  have "Suc 0 + c \<le> ?L" by simp
  from track_every_at [OF at len this] obtain fr1 where
    r: "track_every ct cy step M [Suc 0..<Suc 0 + c] ?fr = Inr fr1"
    and v: "(var_t fr1, var_y fr1) = sample step t y ((0 + c) * M)"
    and l: "length (t_arr fr1) = ?L" "length (y_arr fr1) = ?L"
    and ts: "\<forall>j<?L. t_arr fr1 ! j =
                 (if 0 < j \<and> j \<le> 0 + c then ct (fst (sample step t y (j * M))) else t_arr ?fr ! j)"
    and ys: "\<forall>j<?L. y_arr fr1 ! j =
                 (if 0 < j \<and> j \<le> 0 + c then cy (snd (sample step t y (j * M))) else y_arr ?fr ! j)"
    and cs: "calls fr1 = calls ?fr @ advances step t y (0 * M) (c * M)"
    and vi: "var_i fr1 = (if c = 0 then var_i ?fr else Some (0 + c))"
    by blast
  have v1: "(var_t fr1, var_y fr1) = sample step t y (c * M)"
    using v by simp
  have sub: "substeps step rest fr1 =
           fr1\<lparr>var_t := fst (sample step t y (c * M + rest)),
              var_y := snd (sample step t y (c * M + rest)),
              calls := calls fr1 @ advances step t y (c * M) rest\<rparr>" (is "_ = ?fr2")
    by (rule substeps_at [OF v1])
  have "advances step t y 0 (c * M + rest) = advances step t y 0 (c * M) @ advances step t y (0 + c * M) rest"
    by (rule advances_add)
  then have cs2: "calls ?fr2 = advances step t y 0 (n + M)"
    using cs by (simp add: total)
  have vi2: "var_i ?fr2 = Some c"
    using vi c_pos by simp
  have rec: "record_sample ct cy ?fr2 =
           Inr (?fr2\<lparr>t_arr := (t_arr ?fr2)[c := ct (var_t ?fr2)], y_arr := (y_arr ?fr2)[c := cy (var_y ?fr2)]\<rparr>)"
    by (rule record_sample_at [OF vi2]) (use l in simp_all)
  let ?ta = "(t_arr fr1)[c := ct (fst (sample step t y (n + M)))]"
  let ?ya = "(y_arr fr1)[c := cy (snd (sample step t y (n + M)))]"
  have ta: "?ta = map (\<lambda>j. ct (fst (sample step t y (j * M)))) [0..<c]
                 @ [ct (fst (sample step t y (n + M))), mem_t (c + 1)]"
  proof (rule nth_equalityI)
    show "length ?ta = length (map (\<lambda>j. ct (fst (sample step t y (j * M)))) [0..<c]
                 @ [ct (fst (sample step t y (n + M))), mem_t (c + 1)])"
      using l by simp
  next
    fix j assume "j < length ?ta"
    then have j: "j < c + 2" using l by simp
    consider "j = 0" | "0 < j" "j < c" | "j = c" | "j = c + 1" using j by linarith
    then show "?ta ! j = (map (\<lambda>j. ct (fst (sample step t y (j * M)))) [0..<c]
                 @ [ct (fst (sample step t y (n + M))), mem_t (c + 1)]) ! j"
    proof cases
      case 1
      then show ?thesis using ts c_pos by (simp add: nth_append np_empty_def sample_0 del: upt_Suc)
    next
      case 2
      then show ?thesis using ts by (simp add: nth_append)
    next
      case 3
      then show ?thesis using l by (simp add: nth_append)
    next
      case 4
      then show ?thesis using ts l by (simp add: nth_append np_empty_def del: upt_Suc)
    qed
  qed
  have ya: "?ya = map (\<lambda>j. cy (snd (sample step t y (j * M)))) [0..<c]
                 @ [cy (snd (sample step t y (n + M))), mem_y (c + 1)]"
  proof (rule nth_equalityI)
    show "length ?ya = length (map (\<lambda>j. cy (snd (sample step t y (j * M)))) [0..<c]
                 @ [cy (snd (sample step t y (n + M))), mem_y (c + 1)])"
      using l by simp
  next
    fix j assume "j < length ?ya"
    then have j: "j < c + 2" using l by simp
    consider "j = 0" | "0 < j" "j < c" | "j = c" | "j = c + 1" using j by linarith
    then show "?ya ! j = (map (\<lambda>j. cy (snd (sample step t y (j * M)))) [0..<c]
                 @ [cy (snd (sample step t y (n + M))), mem_y (c + 1)]) ! j"
    proof cases
      case 1
      then show ?thesis using ys c_pos by (simp add: nth_append np_empty_def sample_0 del: upt_Suc)
    next
      case 2
      then show ?thesis using ys by (simp add: nth_append)
    next
      case 3
      then show ?thesis using l by (simp add: nth_append)
    next
      case 4
      then show ?thesis using ys l by (simp add: nth_append np_empty_def del: upt_Suc)
    qed
  qed
  have fin: "returned (record_sample ct cy (substeps step rest fr1)) =
          (advances step t y 0 (n + M), Inr (Trajectory ?ta ?ya))"
    unfolding sub rec returned_def using cs2 by (simp add: total)
  have "every_nth ct cy mem_t mem_y step t y n None N =
          returned (record_sample ct cy (substeps step rest fr1))"
    unfolding every_nth_def Let_def ci_def [symmetric] nt M_def [symmetric] rest_def [symmetric]
    using r by simp
  then show ?thesis
    unfolding M_def [symmetric] by (simp only: fin ta ya)
qed

text \<open>
  Claim C1 asks for \<open>1 + ceil(n / N)\<close> samples, the last one after exactly \<open>n\<close>
  applications. For \<open>n = 10\<close> and \<open>N = 5\<close> the loop records the samples after 5 and
  after 10 steps, then \<open>10 - (3 - 2) * 5 = 5\<close> further steps are made and their sample
  overwrites entry 2: the driver makes 15 calls, and returns arrays of four entries, the
  last of which was never written.
\<close>

theorem iterator_every_nth_overshoot:
  "iterator ct cy mem_t mem_y step t y 10 None (PyInt 5) =
     (advances step t y 0 15,
      Inr (Trajectory [ct t, ct (fst (sample step t y 5)), ct (fst (sample step t y 15)), mem_t 3]
                      [cy y, cy (snd (sample step t y 5)), cy (snd (sample step t y 15)), mem_y 3]))"
proof -
  have c: "nat ((int 10 + 5 - 1) div 5) = 2" by simp
  have "(1::nat) \<le> 10" "(1::int) < 5" by simp_all
  from every_nth_no_exit [OF this, of ct cy mem_t mem_y step t y]
  show ?thesis
    unfolding c by (simp add: iterator_def sample_0 upt_conv_Cons)
qed

text \<open>
  With \<open>n = 7\<close> and \<open>N = 5\<close> the loop likewise makes two whole intervals, and
  \<open>7 - (3 - 2) * 5 = 2\<close> further steps follow: 12 calls, and the last stored sample is
  the one after 12 steps.
\<close>

lemma iterator_every_nth_partial:
  "iterator ct cy mem_t mem_y step t y 7 None (PyInt 5) =
     (advances step t y 0 12,
      Inr (Trajectory [ct t, ct (fst (sample step t y 5)), ct (fst (sample step t y 12)), mem_t 3]
                      [cy y, cy (snd (sample step t y 5)), cy (snd (sample step t y 12)), mem_y 3]))"
proof -
  have c: "nat ((int 7 + 5 - 1) div 5) = 2" by simp
  have "(1::nat) \<le> 7" "(1::int) < 5" by simp_all
  from every_nth_no_exit [OF this, of ct cy mem_t mem_y step t y]
  show ?thesis
    unfolding c by (simp add: iterator_def sample_0 upt_conv_Cons)
qed

text \<open>
  Claim C8 asks for the same output from two runs on the same inputs. The last entry of
  the arrays returned above is what \<open>np.empty\<close> found in memory: with the counting
  advance operation, two runs that differ in nothing but that memory return different
  arrays.
\<close>

theorem iterator_uninitialised_entry:
  "snd (iterator float64 float64 blank blank tick 0 0 10 None (PyInt 5))
     = Inr (Trajectory [0, 5, 15, 0] [0, 10, 30, 0])
   \<and> snd (iterator float64 float64 stale stale tick 0 0 10 None (PyInt 5))
     = Inr (Trajectory [0, 5, 15, 99] [0, 10, 30, 99])"
  by code_simp

subsection \<open>No steps at all\<close>

lemma every_nth_zero:
  assumes "1 < N"
  shows "every_nth ct cy mem_t mem_y step t y 0 exitcond N =
           (advances step t y 0 (nat N), Inl UnboundLocalError)"
proof -
  let ?fr = "\<lparr>var_t = t, var_y = y, var_i = None,
                t_arr = (np_empty mem_t (nat (1 + 1)))[0 := ct t],
                y_arr = (np_empty mem_y (nat (1 + 1)))[0 := cy y],
                calls = []\<rparr>"
  have d: "(int 0 + N - 1) div N = 0"
    using assms by simp
  have at: "(var_t ?fr, var_y ?fr) = sample step t y 0"
    by (simp add: sample_0)
  have sub: "substeps step (nat N) ?fr =
           ?fr\<lparr>var_t := fst (sample step t y (0 + nat N)),
              var_y := snd (sample step t y (0 + nat N)),
              calls := calls ?fr @ advances step t y 0 (nat N)\<rparr>"
    by (rule substeps_at [OF at])
  have rec: "record_sample ct cy (substeps step (nat N) ?fr) =
               Inl (UnboundLocalError, advances step t y 0 (nat N))"
    unfolding sub by (simp add: record_sample_def)
  show ?thesis
  proof (cases exitcond)
    case None
    then show ?thesis
      unfolding every_nth_def d Let_def using rec
      by (simp add: returned_def)
  next
    case (Some ec)
    then show ?thesis
      unfolding every_nth_def d Let_def using rec
      by (simp add: returned_def)
  qed
qed

text \<open>
  Claim C3 asks that \<open>nmax = 0\<close> returns the initial sample in every tracking mode,
  with no call of the advance operation. That holds with tracking off and with
  \<open>trackint = 1\<close> (where the arrays hold the initial sample as stored). With \<open>trackint = 2\<close> the loop over \<open>range(1, 1)\<close> never binds \<open>i\<close>,
  \<open>0 - (1 - 2) * 2 = 2\<close> steps are made, and storing their sample at \<open>i\<close> raises
  UnboundLocalError, with or without an exit condition.
\<close>

theorem iterator_zero_steps:
  "iterator ct cy mem_t mem_y step t y 0 exitcond PyNone = ([], Inr (FinalState t y))
   \<and> iterator ct cy mem_t mem_y step t y 0 exitcond (PyInt 1) = ([], Inr (Trajectory [ct t] [cy y]))
   \<and> iterator ct cy mem_t mem_y step t y 0 exitcond (PyInt 2) =
       (advances step t y 0 2, Inl UnboundLocalError)"
proof (intro conjI)
  show "iterator ct cy mem_t mem_y step t y 0 exitcond PyNone = ([], Inr (FinalState t y))"
    by (cases exitcond) (simp_all add: iterator_def)
  show "iterator ct cy mem_t mem_y step t y 0 exitcond (PyInt 1) = ([], Inr (Trajectory [ct t] [cy y]))"
    by (cases exitcond) (simp_all add: iterator_def every_step_def returned_def np_empty_def)
  have "(1::int) < 2" by simp
  from every_nth_zero [OF this]
  show "iterator ct cy mem_t mem_y step t y 0 exitcond (PyInt 2) =
     (advances step t y 0 2, Inl UnboundLocalError)"
    by (simp add: iterator_def)
qed

subsection \<open>Invalid tracking intervals\<close>

text \<open>
  Claim C5, as amended. For every \<open>trackint\<close> that is an integer not above zero, or a
  float below one, the driver raises SystemExit at once: no call of the advance
  operation has been made and nothing is returned.
\<close>

theorem iterator_invalid_trackint:
  assumes "(v = PyInt k \<and> k \<le> 0) \<or> (v = PyFloat r \<and> r < 1)"
  shows "iterator ct cy mem_t mem_y step t y n exitcond v = ([], Inl SystemExit)"
  using assms by (auto simp: iterator_def)

theorem iterator_invalid_trackint_witness:
  "iterator float64 float64 blank blank tick 0 0 5 None (PyInt (- 3)) = ([], Inl SystemExit)
   \<and> iterator float64 float64 blank blank tick 0 0 5 None (PyInt 0) = ([], Inl SystemExit)"
  using iterator_invalid_trackint [where v = "PyInt (- 3)" and k = "- 3" and mem_t = blank
      and mem_y = blank and step = tick and t = 0 and y = 0 and n = 5 and exitcond = None]
    iterator_invalid_trackint [where v = "PyInt 0" and k = 0 and mem_t = blank
      and mem_y = blank and step = tick and t = 0 and y = 0 and n = 5 and exitcond = None]
  by simp

text \<open>
  Claim C5 as stated covers every value that is not a positive integer. The float
  \<open>2.5\<close> is greater than one, so it is not sent to the branch that raises SystemExit: the
  exception is the TypeError of the array allocation.
\<close>

theorem iterator_float_trackint_counterexample:
  "snd (iterator float64 float64 blank blank tick 0 0 5 None (PyFloat (5 / 2))) \<noteq> Inl SystemExit"
  by (simp add: iterator_def)

lemma iterator_float_trackint_type_error:
  "iterator ct cy mem_t mem_y step t y n exitcond (PyFloat (5 / 2)) = ([], Inl TypeError)"
  by (simp add: iterator_def)

text \<open>The float \<open>1.0\<close> equals one and is taken as tracking every step.\<close>

lemma iterator_float_one:
  "iterator ct cy mem_t mem_y step t y n exitcond (PyFloat 1) =
     iterator ct cy mem_t mem_y step t y n exitcond (PyInt 1)"
  by (simp add: iterator_def)

subsection \<open>Tracking every \<open>trackint\<close> steps, with an exit condition\<close>


lemma check_exit_no:
  assumes "i < length (t_arr fr)" "length (y_arr fr) = length (t_arr fr)"
    and "\<not> ec (t_arr fr ! i) (y_arr fr ! i)"
  shows "check_exit ec nmax i fr =
           Inr (False, fr\<lparr>calls := calls fr @ [Check (t_arr fr ! i) (y_arr fr ! i)]\<rparr>)"
  using assms by (simp add: check_exit_def getitem_def)



lemma turns_0: "turns ct cy step t y N 0 = []"
  by (simp add: turns_def)
















lemma iterator_every_nth_exit_runs:
  "iterator float64 float64 stale stale tick 0 0 1 (Some never) (PyInt 3) =
     ([Advance 0 0, Advance 1 2, Advance 2 4, Check 3 6, Advance 3 6],
      Inr (Trajectory [0, 4, 99] [0, 8, 99]))"
  "iterator float64 float64 stale stale tick 0 0 1 (Some always) (PyInt 3) =
     ([Advance 0 0, Advance 1 2, Advance 2 4, Check 3 6],
      Inr (Trajectory [0, 3, 99] [0, 6, 99]))"
  by code_simp+

text \<open>
  Claim C2 asks that an exit at tracked index \<open>k\<close> returns arrays of exactly \<open>k + 1\<close>
  entries. The branch \<open>trackint > 1\<close> deletes the indices \<open>range(i+1, nmax+1)\<close> of arrays
  that have \<open>ntrack + 1\<close> entries. With \<open>nmax = 1\<close> and \<open>trackint = 2\<close> the arrays have
  three entries; the condition holds at index 1, \<open>range(2, 2)\<close> is empty, and all three
  entries are returned, the last one never written.
\<close>

theorem iterator_every_nth_exit_not_trimmed:
  "iterator float64 float64 stale stale tick 0 0 1 (Some always) (PyInt 2) =
     ([Advance 0 0, Advance 1 2, Check 2 4], Inr (Trajectory [0, 2, 99] [0, 4, 99]))"
  by code_simp

lemma np_delete_tail:
  assumes "a \<le> length arr"
  shows "np_delete arr [a..<length arr] = Inr (take a arr)"
proof -
  have ok: "list_all (\<lambda>k. k < length arr) [a..<length arr]"
    by (simp add: list_all_iff)
  have "[0..<length arr] = [0..<a] @ [a..<length arr]"
    using assms by (metis le_add_diff_inverse upt_add_eq_append zero_le)
  then have "filter (\<lambda>k. k \<notin> set [a..<length arr]) [0..<length arr] = [0..<a]"
    by (simp add: filter_empty_conv)
  moreover have "map (nth arr) [0..<a] = take a arr"
    using assms by (intro nth_equalityI) simp_all
  ultimately show ?thesis
    using ok by (simp add: np_delete_def)
qed


text \<open>One turn of the loop that tracks every step under an exit condition.\<close>

lemma turn_calls_one:
  "turn_calls ct cy step t y (Suc 0) p =
     [case sample step t y p of (a, b) \<Rightarrow> Advance a b,
      case sample step t y (Suc p) of (a, b) \<Rightarrow> Check (ct a) (cy b)]"
  by (simp add: turn_calls_def advances_def)

lemma step_arrays_turn:
  assumes len: "length (t_arr fr) = L" "length (y_arr fr) = L"
    and i: "Suc p < L"
    and prev: "\<forall>j\<le>p. t_arr fr ! j = fst (sample (stored ct cy step) t0 y0 j) \<and> y_arr fr ! j = snd (sample (stored ct cy step) t0 y0 j)"
  shows "\<exists>fr1. step_arrays ct cy step (Suc p) fr = Inr fr1
           \<and> length (t_arr fr1) = L \<and> length (y_arr fr1) = L
           \<and> (\<forall>j\<le>Suc p. t_arr fr1 ! j = fst (sample (stored ct cy step) t0 y0 j)
                  \<and> y_arr fr1 ! j = snd (sample (stored ct cy step) t0 y0 j))
           \<and> calls fr1 = calls fr @ [case sample (stored ct cy step) t0 y0 p of (a, b) \<Rightarrow> Advance a b]"
proof -
  have pv: "(t_arr fr ! (Suc p - 1), y_arr fr ! (Suc p - 1)) = sample (stored ct cy step) t0 y0 (Suc p - 1)"
    using prev by simp
  have "0 < Suc p" by simp
  from step_arrays_at [OF len this i pv]
  have st: "step_arrays ct cy step (Suc p) fr =
           Inr (fr\<lparr>var_i := Some (Suc p),
                   t_arr := (t_arr fr)[Suc p := fst (sample (stored ct cy step) t0 y0 (Suc p))],
                   y_arr := (y_arr fr)[Suc p := snd (sample (stored ct cy step) t0 y0 (Suc p))],
                   calls := calls fr @ advances (stored ct cy step) t0 y0 (Suc p - 1) 1\<rparr>)" (is "_ = Inr ?fr1") .
  have "\<forall>j\<le>Suc p. t_arr ?fr1 ! j = fst (sample (stored ct cy step) t0 y0 j)
                  \<and> y_arr ?fr1 ! j = snd (sample (stored ct cy step) t0 y0 j)"
  proof (intro allI impI)
    fix j assume "j \<le> Suc p"
    then show "t_arr ?fr1 ! j = fst (sample (stored ct cy step) t0 y0 j)
                  \<and> y_arr ?fr1 ! j = snd (sample (stored ct cy step) t0 y0 j)"
      using prev len i by (cases "j = Suc p") auto
  qed
  moreover have "calls ?fr1 = calls fr @ [case sample (stored ct cy step) t0 y0 p of (a, b) \<Rightarrow> Advance a b]"
    by (simp add: advances_def)
  ultimately show ?thesis using st len by auto
qed

lemma samples_prefix:
  assumes "length xs = L" "Suc p \<le> L" "\<forall>j\<le>p. xs ! j = f j"
  shows "take (Suc p) xs = map f [0..<Suc p]"
  using assms by (intro nth_equalityI) (simp_all del: upt_Suc)

lemma track_all_until_fire:
  assumes "length (t_arr fr) = n + 1" "length (y_arr fr) = n + 1"
    and "\<forall>j\<le>p. t_arr fr ! j = fst (sample (stored ct cy step) t0 y0 j) \<and> y_arr fr ! j = snd (sample (stored ct cy step) t0 y0 j)"
    and "Suc p + k \<le> n"
    and "fires (\<lambda>a. a) (\<lambda>b. b) ec (stored ct cy step) t0 y0 1 (Suc p + k)"
    and "\<forall>j. p < j \<and> j < Suc p + k \<longrightarrow> \<not> fires (\<lambda>a. a) (\<lambda>b. b) ec (stored ct cy step) t0 y0 1 j"
  shows "\<exists>fr'. track_all_until ct cy step ec n [Suc p..<n + 1] fr = Inr fr'
           \<and> t_arr fr' = map (\<lambda>j. fst (sample (stored ct cy step) t0 y0 j)) [0..<Suc p + k + 1]
           \<and> y_arr fr' = map (\<lambda>j. snd (sample (stored ct cy step) t0 y0 j)) [0..<Suc p + k + 1]
           \<and> calls fr' = calls fr @ concat (map (turn_calls (\<lambda>a. a) (\<lambda>b. b) (stored ct cy step) t0 y0 1) [p..<Suc p + k])"
  using assms
proof (induction k arbitrary: p fr)
  case 0
  have iL: "Suc p < n + 1" using "0.prems"(4) by simp
  from step_arrays_turn [OF "0.prems"(1,2) iL "0.prems"(3)] obtain fr1 where
    st: "step_arrays ct cy step (Suc p) fr = Inr fr1"
    and l1: "length (t_arr fr1) = n + 1" "length (y_arr fr1) = n + 1"
    and e1: "\<forall>j\<le>Suc p. t_arr fr1 ! j = fst (sample (stored ct cy step) t0 y0 j)
                  \<and> y_arr fr1 ! j = snd (sample (stored ct cy step) t0 y0 j)"
    and c1: "calls fr1 = calls fr @ [case sample (stored ct cy step) t0 y0 p of (a, b) \<Rightarrow> Advance a b]"
    by blast
  have f: "ec (t_arr fr1 ! Suc p) (y_arr fr1 ! Suc p)"
    using "0.prems"(5) e1 by (simp add: fires_def case_prod_beta)
  have ck: "[case sample (stored ct cy step) t0 y0 (Suc p) of (a, b) \<Rightarrow> Check a b]
             = [Check (t_arr fr1 ! Suc p) (y_arr fr1 ! Suc p)]"
    using e1 by (simp add: case_prod_beta)
  have dt: "np_delete (t_arr fr1) [Suc p + 1..<n + 1] = Inr (take (Suc p + 1) (t_arr fr1))"
    using np_delete_tail [of "Suc p + 1" "t_arr fr1"] l1 iL by simp
  have dy: "np_delete (y_arr fr1) [Suc p + 1..<n + 1] = Inr (take (Suc p + 1) (y_arr fr1))"
    using np_delete_tail [of "Suc p + 1" "y_arr fr1"] l1 iL by simp
  let ?fr2 = "fr1\<lparr>t_arr := take (Suc p + 1) (t_arr fr1), y_arr := take (Suc p + 1) (y_arr fr1),
                   calls := calls fr1 @ [Check (t_arr fr1 ! Suc p) (y_arr fr1 ! Suc p)]\<rparr>"
  have ce: "check_exit ec n (Suc p) fr1 = Inr (True, ?fr2)"
    using f l1 iL dt dy by (simp add: check_exit_def getitem_def)
  have upt: "[Suc p..<n + 1] = Suc p # [Suc (Suc p)..<n + 1]"
    using iL by (simp add: upt_conv_Cons del: upt_Suc)
  have run: "track_all_until ct cy step ec n [Suc p..<n + 1] fr = Inr ?fr2"
    unfolding upt by (simp add: st ce)
  have ta: "take (Suc (Suc p)) (t_arr fr1) = map (\<lambda>j. fst (sample (stored ct cy step) t0 y0 j)) [0..<Suc (Suc p)]"
    by (rule samples_prefix [OF l1(1)]) (use iL e1 in simp_all)
  have ya: "take (Suc (Suc p)) (y_arr fr1) = map (\<lambda>j. snd (sample (stored ct cy step) t0 y0 j)) [0..<Suc (Suc p)]"
    by (rule samples_prefix [OF l1(2)]) (use iL e1 in simp_all)
  have cs: "calls ?fr2 = calls fr @ concat (map (turn_calls (\<lambda>a. a) (\<lambda>b. b) (stored ct cy step) t0 y0 1) [p..<Suc p + 0])"
    using c1 ck by (simp add: turn_calls_one)
  show ?case
    using run ta ya cs by (simp del: upt_Suc)
next
  case (Suc k)
  have iL: "Suc p < n + 1" using Suc.prems(4) by simp
  from step_arrays_turn [OF Suc.prems(1,2) iL Suc.prems(3)] obtain fr1 where
    st: "step_arrays ct cy step (Suc p) fr = Inr fr1"
    and l1: "length (t_arr fr1) = n + 1" "length (y_arr fr1) = n + 1"
    and e1: "\<forall>j\<le>Suc p. t_arr fr1 ! j = fst (sample (stored ct cy step) t0 y0 j)
                  \<and> y_arr fr1 ! j = snd (sample (stored ct cy step) t0 y0 j)"
    and c1: "calls fr1 = calls fr @ [case sample (stored ct cy step) t0 y0 p of (a, b) \<Rightarrow> Advance a b]"
    by blast
  have "\<not> fires (\<lambda>a. a) (\<lambda>b. b) ec (stored ct cy step) t0 y0 1 (Suc p)" using Suc.prems(6) by simp
  then have nf: "\<not> ec (t_arr fr1 ! Suc p) (y_arr fr1 ! Suc p)"
    using e1 by (simp add: fires_def case_prod_beta)
  have ck: "[case sample (stored ct cy step) t0 y0 (Suc p) of (a, b) \<Rightarrow> Check a b]
             = [Check (t_arr fr1 ! Suc p) (y_arr fr1 ! Suc p)]"
    using e1 by (simp add: case_prod_beta)
  let ?fr2 = "fr1\<lparr>calls := calls fr1 @ [Check (t_arr fr1 ! Suc p) (y_arr fr1 ! Suc p)]\<rparr>"
  have ce: "check_exit ec n (Suc p) fr1 = Inr (False, ?fr2)"
    by (rule check_exit_no [where ec = ec]) (use l1 iL nf in simp_all)
  have upt: "[Suc p..<n + 1] = Suc p # [Suc (Suc p)..<n + 1]"
    using iL by (simp add: upt_conv_Cons del: upt_Suc)
  have run: "track_all_until ct cy step ec n [Suc p..<n + 1] fr =
               track_all_until ct cy step ec n [Suc (Suc p)..<n + 1] ?fr2"
    unfolding upt by (simp add: st ce)
  have p1: "length (t_arr ?fr2) = n + 1" "length (y_arr ?fr2) = n + 1"
    using l1 by simp_all
  have p3: "\<forall>j\<le>Suc p. t_arr ?fr2 ! j = fst (sample (stored ct cy step) t0 y0 j)
                  \<and> y_arr ?fr2 ! j = snd (sample (stored ct cy step) t0 y0 j)"
    using e1 by simp
  have p4: "Suc (Suc p) + k \<le> n" using Suc.prems(4) by simp
  have p5: "fires (\<lambda>a. a) (\<lambda>b. b) ec (stored ct cy step) t0 y0 1 (Suc (Suc p) + k)" using Suc.prems(5) by simp
  have p6: "\<forall>j. Suc p < j \<and> j < Suc (Suc p) + k \<longrightarrow> \<not> fires (\<lambda>a. a) (\<lambda>b. b) ec (stored ct cy step) t0 y0 1 j"
    using Suc.prems(6) by simp
  from Suc.IH [OF p1 p3 p4 p5 p6] obtain fr' where
    r: "track_all_until ct cy step ec n [Suc (Suc p)..<n + 1] ?fr2 = Inr fr'"
    and ta: "t_arr fr' = map (\<lambda>j. fst (sample (stored ct cy step) t0 y0 j)) [0..<Suc (Suc p) + k + 1]"
    and ya: "y_arr fr' = map (\<lambda>j. snd (sample (stored ct cy step) t0 y0 j)) [0..<Suc (Suc p) + k + 1]"
    and cs: "calls fr' = calls ?fr2 @ concat (map (turn_calls (\<lambda>a. a) (\<lambda>b. b) (stored ct cy step) t0 y0 1) [Suc p..<Suc (Suc p) + k])"
    by blast
  have upt2: "[p..<Suc p + Suc k] = p # [Suc p..<Suc (Suc p) + k]"
    by (simp add: upt_conv_Cons del: upt_Suc)
  have cs': "calls fr' = calls fr @ concat (map (turn_calls (\<lambda>a. a) (\<lambda>b. b) (stored ct cy step) t0 y0 1) [p..<Suc p + Suc k])"
    unfolding upt2 using cs c1 ck by (simp add: turn_calls_one del: upt_Suc)
  show ?case
    using run r ta ya cs' by (simp del: upt_Suc)
qed

text \<open>
  The branch \<open>trackint == 1\<close> does trim: when the exit condition first holds on sample
  \<open>q\<close>, the arrays returned have the \<open>q + 1\<close> entries written so far.
\<close>

lemma iterator_every_step_exit:
  assumes "0 < q" "q \<le> n" "fires (\<lambda>a. a) (\<lambda>b. b) ec (stored ct cy step) (ct t) (cy y) 1 q"
    and "\<forall>j. 0 < j \<and> j < q \<longrightarrow> \<not> fires (\<lambda>a. a) (\<lambda>b. b) ec (stored ct cy step) (ct t) (cy y) 1 j"
  shows "iterator ct cy mem_t mem_y step t y n (Some ec) (PyInt 1) =
           (turns (\<lambda>a. a) (\<lambda>b. b) (stored ct cy step) (ct t) (cy y) 1 q,
            Inr (Trajectory (map (\<lambda>j. fst (sample (stored ct cy step) (ct t) (cy y) j)) [0..<q + 1])
                            (map (\<lambda>j. snd (sample (stored ct cy step) (ct t) (cy y) j)) [0..<q + 1])))"
proof -
  let ?fr = "\<lparr>var_t = t, var_y = y, var_i = None,
                t_arr = (np_empty mem_t (n + 1))[0 := ct t],
                y_arr = (np_empty mem_y (n + 1))[0 := cy y],
                calls = []\<rparr>"
  define k where "k = q - 1"
  have q: "q = Suc 0 + k" using assms(1) by (simp add: k_def)
  have l: "length (t_arr ?fr) = n + 1" "length (y_arr ?fr) = n + 1"
    by (simp_all add: np_empty_def)
  have z: "\<forall>j\<le>0. t_arr ?fr ! j = fst (sample (stored ct cy step) (ct t) (cy y) j) \<and> y_arr ?fr ! j = snd (sample (stored ct cy step) (ct t) (cy y) j)"
    by (simp add: np_empty_def sample_0 del: upt_Suc)
  have p4: "Suc 0 + k \<le> n" using assms(2) q by simp
  have p5: "fires (\<lambda>a. a) (\<lambda>b. b) ec (stored ct cy step) (ct t) (cy y) 1 (Suc 0 + k)" using assms(3) q by simp
  have p6: "\<forall>j. 0 < j \<and> j < Suc 0 + k \<longrightarrow> \<not> fires (\<lambda>a. a) (\<lambda>b. b) ec (stored ct cy step) (ct t) (cy y) 1 j"
    using assms(4) q by simp
  from track_all_until_fire [OF l z p4 p5 p6] obtain fr' where
    r: "track_all_until ct cy step ec n [Suc 0..<n + 1] ?fr = Inr fr'"
    and ta: "t_arr fr' = map (\<lambda>j. fst (sample (stored ct cy step) (ct t) (cy y) j)) [0..<Suc 0 + k + 1]"
    and ya: "y_arr fr' = map (\<lambda>j. snd (sample (stored ct cy step) (ct t) (cy y) j)) [0..<Suc 0 + k + 1]"
    and cs: "calls fr' = calls ?fr @ concat (map (turn_calls (\<lambda>a. a) (\<lambda>b. b) (stored ct cy step) (ct t) (cy y) 1) [0..<Suc 0 + k])"
    by blast
  have "every_step ct cy mem_t mem_y step t y n (Some ec) =
          (calls fr', Inr (Trajectory (t_arr fr') (y_arr fr')))"
    unfolding every_step_def Let_def using r by (simp add: returned_def)
  then show ?thesis
    unfolding ta ya cs q by (simp add: iterator_def turns_def del: upt_Suc)
qed

text \<open>The branch \<open>trackint == 1\<close> on the same input, and on a longer run.\<close>

lemma iterator_every_step_exit_trimmed:
  "iterator float64 float64 stale stale tick 0 0 1 (Some always) (PyInt 1) =
     ([Advance 0 0, Check 1 2], Inr (Trajectory [0, 1] [0, 2]))"
  "iterator float64 float64 stale stale tick 0 0 5 (Some (reached 3)) (PyInt 1) =
     ([Advance 0 0, Check 1 2, Advance 1 2, Check 2 4, Advance 2 4, Check 3 6],
      Inr (Trajectory [0, 1, 2, 3] [0, 2, 4, 6]))"
  by code_simp+

section \<open>Properties of the store\<close>

subsection \<open>The store only grows behind the tracking arrays\<close>

lemma prefix_update:
  assumes "prefix s h" "length s \<le> a"
  shows "prefix s (h[a := ob])"
proof -
  from assms(1) obtain zs where "h = s @ zs" by (auto simp: prefix_def)
  then have "h[a := ob] = s @ zs[a - length s := ob]"
    using assms(2) by (simp add: list_update_append)
  then show ?thesis by simp
qed

lemma prefix_snoc: "prefix s h \<Longrightarrow> prefix s (h @ zs)"
  by (rule prefix_prefix)

lemma load_times_snoc: "a < length h \<Longrightarrow> load_times (h @ zs) a = load_times h a"
  by (simp add: load_times_def nth_append)

lemma load_rows_snoc: "a < length h \<Longrightarrow> load_rows (h @ zs) a = load_rows h a"
  by (simp add: load_rows_def nth_append)

lemma t_entries_bound: "t_entries h a \<noteq> [] \<Longrightarrow> a < length h"
  by (auto simp: t_entries_def load_times_def split: if_splits)

lemma y_rows_bound: "y_rows h a \<noteq> [] \<Longrightarrow> a < length h"
  by (auto simp: y_rows_def load_rows_def split: if_splits)

lemma t_entries_snoc: "t_entries h a \<noteq> [] \<Longrightarrow> t_entries (h @ zs) a = t_entries h a"
  using t_entries_bound [of h a] by (simp add: t_entries_def load_times_snoc)

lemma y_rows_snoc: "y_rows h a \<noteq> [] \<Longrightarrow> y_rows (h @ zs) a = y_rows h a"
  using y_rows_bound [of h a] by (simp add: y_rows_def load_rows_snoc)

lemma take1_nonempty: "take 1 xs = [x] \<Longrightarrow> xs \<noteq> []"
  by auto

text \<open>Appending to the store keeps the tracking arrays.\<close>

lemma arrays_at_snoc:
  assumes "arrays_at s t0 v h ta ya"
  shows "arrays_at s t0 v (h @ zs) ta ya"
proof -
  have t: "t_entries h ta \<noteq> []" and y: "y_rows h ya \<noteq> []"
    using assms by (auto simp: arrays_at_def dest: take1_nonempty)
  show ?thesis
    using assms t_entries_snoc [OF t, of zs] y_rows_snoc [OF y, of zs]
    by (simp add: arrays_at_def prefix_snoc)
qed

lemma tracking_grow:
  assumes "tracking s t0 v fr"
    and "heap fr' = heap fr @ zs"
    and "ref_t_arr fr' = ref_t_arr fr" "ref_y_arr fr' = ref_y_arr fr" "idx_i fr' = idx_i fr"
  shows "tracking s t0 v fr'"
  using assms arrays_at_snoc [of s t0 v "heap fr" "ref_t_arr fr" "ref_y_arr fr" zs]
  by (simp add: tracking_def)

lemma step_vars_h_grows:
  "step_vars_h step fr = Inr fr' \<Longrightarrow>
     (\<exists>ob. heap fr' = heap fr @ [ob]) \<and> ref_t_arr fr' = ref_t_arr fr
       \<and> ref_y_arr fr' = ref_y_arr fr \<and> idx_i fr' = idx_i fr"
  "step_vars_h step fr = Inl (e, h) \<Longrightarrow> h = heap fr"
  by (auto simp: step_vars_h_def alloc_def split: sum.splits prod.splits)

lemma substeps_h_grows:
  "substeps_h step k fr = Inr fr' \<Longrightarrow>
     (\<exists>zs. heap fr' = heap fr @ zs) \<and> ref_t_arr fr' = ref_t_arr fr
       \<and> ref_y_arr fr' = ref_y_arr fr \<and> idx_i fr' = idx_i fr"
  "substeps_h step k fr = Inl (e, h) \<Longrightarrow> \<exists>zs. h = heap fr @ zs"
proof (induction k arbitrary: fr)
  case 0
  { case 1 then show ?case by simp }
  { case 2 then show ?case by simp }
next
  case (Suc k)
  { case 1
    then obtain fr1 where s: "step_vars_h step fr = Inr fr1" and r: "substeps_h step k fr1 = Inr fr'"
      by (auto split: sum.splits)
    from step_vars_h_grows(1) [OF s] Suc.IH(1) [OF r] show ?case by auto }
  { case 2
    show ?case
    proof (cases "step_vars_h step fr")
      case (Inl a)
      then show ?thesis using 2 step_vars_h_grows(2) [of step fr e h] by auto
    next
      case (Inr fr1)
      then have "substeps_h step k fr1 = Inl (e, h)" using 2 by simp
      from Suc.IH(2) [OF this] step_vars_h_grows(1) [OF Inr] show ?thesis by auto
    qed }
qed

lemma steps_until_h_grows:
  "steps_until_h step ec k fr = Inr fr' \<Longrightarrow> \<exists>zs. heap fr' = heap fr @ zs"
  "steps_until_h step ec k fr = Inl (e, h) \<Longrightarrow> \<exists>zs. h = heap fr @ zs"
proof (induction k arbitrary: fr)
  case 0
  { case 1 then show ?case by simp }
  { case 2 then show ?case by simp }
next
  case (Suc k)
  { case 1
    then obtain fr1 where s: "step_vars_h step fr = Inr fr1"
      and r: "fr' = fr1 \<or> steps_until_h step ec k fr1 = Inr fr'"
      by (auto split: sum.splits if_splits)
    from r show ?case
    proof
      assume "fr' = fr1" then show ?thesis using step_vars_h_grows(1) [OF s] by auto
    next
      assume "steps_until_h step ec k fr1 = Inr fr'"
      from Suc.IH(1) [OF this] step_vars_h_grows(1) [OF s] show ?thesis by auto
    qed }
  { case 2
    show ?case
    proof (cases "step_vars_h step fr")
      case (Inl a)
      then show ?thesis using 2 step_vars_h_grows(2) [of step fr e h] by auto
    next
      case (Inr fr1)
      then have "h = heap fr1 \<or> steps_until_h step ec k fr1 = Inl (e, h)"
        using 2 by (auto split: sum.splits if_splits)
      then show ?thesis
      proof
        assume "h = heap fr1" then show ?thesis using step_vars_h_grows(1) [OF Inr] by auto
      next
        assume "steps_until_h step ec k fr1 = Inl (e, h)"
        from Suc.IH(2) [OF this] step_vars_h_grows(1) [OF Inr] show ?thesis by auto
      qed
    qed }
qed


lemma substeps_h_tracked:
  assumes "tracking s t0 v fr"
  shows "tracked s t0 v (substeps_h step k fr)"
proof (cases "substeps_h step k fr")
  case (Inl a)
  obtain e h where a: "a = (e, h)" by (cases a)
  from substeps_h_grows(2) [of step k fr e h] Inl a obtain zs where "h = heap fr @ zs" by auto
  then have "prefix s h" using assms by (simp add: tracking_def arrays_at_def prefix_snoc)
  then show ?thesis using Inl a by (simp add: tracked_def)
next
  case (Inr fr')
  from substeps_h_grows(1) [OF Inr] obtain zs where "heap fr' = heap fr @ zs"
    and "ref_t_arr fr' = ref_t_arr fr" "ref_y_arr fr' = ref_y_arr fr" "idx_i fr' = idx_i fr"
    by auto
  from tracking_grow [OF assms this] show ?thesis using Inr by (simp add: tracked_def)
qed

subsection \<open>Writes go to the tracking arrays\<close>

lemma t_entries_update:
  "a < length h \<Longrightarrow> t_entries (h[a := TArr xs]) a = xs"
  by (simp add: t_entries_def load_times_def)

lemma y_rows_update:
  "a < length h \<Longrightarrow> y_rows (h[a := YArr rows]) a = rows"
  by (simp add: y_rows_def load_rows_def)

lemma y_rows_update_other:
  "a \<noteq> ya \<Longrightarrow> y_rows (h[a := ob]) ya = y_rows h ya"
  by (simp add: y_rows_def load_rows_def)

lemma t_entries_update_other:
  "a \<noteq> ta \<Longrightarrow> t_entries (h[a := ob]) ta = t_entries h ta"
  by (simp add: t_entries_def load_times_def)

lemma arrays_apart:
  assumes "t_entries h ta \<noteq> []" "y_rows h ya \<noteq> []"
  shows "ta \<noteq> ya"
  using assms
  by (auto simp: t_entries_def load_times_def y_rows_def load_rows_def
      split: if_splits obj.splits)

lemma arrays_at_store_t:
  assumes "arrays_at s t0 v h ta ya" "0 < i" "store_t ct h ta i x = Inr h1"
  shows "arrays_at s t0 v h1 ta ya"
proof -
  from assms(3) obtain xs where xs: "load_times h ta = Inr xs" and i: "i < length xs"
    and h1: "h1 = h[ta := TArr (xs[i := ct x])]"
    by (auto simp: store_t_def setitem_def split: sum.splits if_splits)
  have ta: "ta < length h" using xs by (auto simp: load_times_def split: if_splits)
  have te: "t_entries h ta = xs" using xs by (simp add: t_entries_def)
  have "t_entries h ta \<noteq> []" "y_rows h ya \<noteq> []"
    using assms(1) by (auto simp: arrays_at_def dest: take1_nonempty)
  then have ne: "ta \<noteq> ya" by (rule arrays_apart)
  have "take 1 (xs[i := ct x]) = take 1 xs" using assms(2) by (simp add: take_update_cancel)
  then show ?thesis
    using assms(1) te ta ne unfolding h1
    by (simp add: arrays_at_def prefix_update t_entries_update y_rows_update_other)
qed

lemma arrays_at_store_row:
  assumes "arrays_at s t0 v h ta ya" "0 < i" "store_row cy h ya i w = Inr h1"
  shows "arrays_at s t0 v h1 ta ya"
proof -
  from assms(3) obtain rows where rows: "load_rows h ya = Inr rows" and i: "i < length rows"
    and h1: "h1 = h[ya := YArr (rows[i := cy w])]"
    by (auto simp: store_row_def setitem_def split: sum.splits if_splits)
  have ya: "ya < length h" using rows by (auto simp: load_rows_def split: if_splits)
  have ye: "y_rows h ya = rows" using rows by (simp add: y_rows_def)
  have "t_entries h ta \<noteq> []" "y_rows h ya \<noteq> []"
    using assms(1) by (auto simp: arrays_at_def dest: take1_nonempty)
  then have ne: "ya \<noteq> ta" using arrays_apart by blast
  have "take 1 (rows[i := cy w]) = take 1 rows" using assms(2) by (simp add: take_update_cancel)
  then show ?thesis
    using assms(1) ye ya ne unfolding h1
    by (simp add: arrays_at_def prefix_update y_rows_update t_entries_update_other)
qed

text \<open>Deleting indices other than the first keeps the first entry.\<close>

lemma np_delete_first:
  assumes "np_delete xs obj = Inr xs'" "take 1 xs = [x]" "\<forall>k\<in>set obj. 0 < k"
  shows "take 1 xs' = [x]"
proof -
  have ne: "xs \<noteq> []" using assms(2) by auto
  then have upt: "[0..<length xs] = 0 # [1..<length xs]"
    by (simp add: upt_conv_Cons del: upt_Suc)
  have "0 \<notin> set obj" using assms(3) by auto
  then have "xs' = xs ! 0 # map (nth xs) (filter (\<lambda>k. k \<notin> set obj) [1..<length xs])"
    using assms(1) unfolding np_delete_def upt by (auto split: if_splits)
  moreover have "xs ! 0 = x" using assms(2) ne by (cases xs) auto
  ultimately show ?thesis by simp
qed

lemma arrays_at_delete_times:
  assumes "arrays_at s t0 v h ta ya" "\<forall>k\<in>set obj. 0 < k" "delete_times h ta obj = Inr (h1, ta')"
  shows "arrays_at s t0 v h1 ta' ya"
proof -
  from assms(3) obtain xs xs' where xs: "load_times h ta = Inr xs"
    and d: "np_delete xs obj = Inr xs'" and h1: "h1 = h @ [TArr xs']" and ta': "ta' = length h"
    by (auto simp: delete_times_def alloc_def split: sum.splits)
  have "take 1 xs = [t0]" using assms(1) xs by (simp add: arrays_at_def t_entries_def)
  from np_delete_first [OF d this assms(2)] have f: "take 1 xs' = [t0]" .
  have te: "t_entries (h @ [TArr xs']) (length h) = xs'"
    by (simp add: t_entries_def load_times_def)
  have len: "length s \<le> length h"
    using assms(1) by (auto simp: arrays_at_def dest: prefix_length_le)
  have "arrays_at s t0 v (h @ [TArr xs']) ta ya" by (rule arrays_at_snoc [OF assms(1)])
  then show ?thesis
    unfolding h1 ta' using f te len by (simp add: arrays_at_def)
qed

lemma arrays_at_delete_rows:
  assumes "arrays_at s t0 v h ta ya" "\<forall>k\<in>set obj. 0 < k" "delete_rows h ya obj = Inr (h1, ya')"
  shows "arrays_at s t0 v h1 ta ya'"
proof -
  from assms(3) obtain rows rows' where rows: "load_rows h ya = Inr rows"
    and d: "np_delete rows obj = Inr rows'" and h1: "h1 = h @ [YArr rows']" and ya': "ya' = length h"
    by (auto simp: delete_rows_def alloc_def split: sum.splits)
  have "take 1 rows = [v]" using assms(1) rows by (simp add: arrays_at_def y_rows_def)
  from np_delete_first [OF d this assms(2)] have f: "take 1 rows' = [v]" .
  have ye: "y_rows (h @ [YArr rows']) (length h) = rows'"
    by (simp add: y_rows_def load_rows_def)
  have len: "length s \<le> length h"
    using assms(1) by (auto simp: arrays_at_def dest: prefix_length_le)
  have "arrays_at s t0 v (h @ [YArr rows']) ta ya" by (rule arrays_at_snoc [OF assms(1)])
  then show ?thesis
    unfolding h1 ya' using f ye len by (simp add: arrays_at_def)
qed

lemma store_t_prefix:
  assumes "prefix s h" "length s \<le> ta" "store_t ct h ta i x = Inr h1"
  shows "prefix s h1"
  using assms by (auto simp: store_t_def prefix_update split: sum.splits)


subsection \<open>Statements and loops keep the tracking arrays\<close>

lemma tracking_prefix: "tracking s t0 v fr \<Longrightarrow> prefix s (heap fr)"
  by (simp add: tracking_def arrays_at_def)

lemma record_sample_h_tracked:
  assumes "tracking s t0 v fr"
  shows "tracked s t0 v (record_sample_h ct cy fr)"
proof (cases "idx_i fr")
  case None
  then show ?thesis
    using assms by (simp add: record_sample_h_def tracked_def tracking_prefix)
next
  case (Some i)
  then have i: "0 < i" using assms by (simp add: tracking_def)
  have a0: "arrays_at s t0 v (heap fr) (ref_t_arr fr) (ref_y_arr fr)"
    using assms by (simp add: tracking_def)
  show ?thesis
  proof (cases "store_t ct (heap fr) (ref_t_arr fr) i (val_t fr)")
    case (Inl e)
    then show ?thesis
      using Some assms by (simp add: record_sample_h_def tracked_def tracking_prefix)
  next
    case (Inr h1)
    from arrays_at_store_t [OF a0 i Inr]
    have a1: "arrays_at s t0 v h1 (ref_t_arr fr) (ref_y_arr fr)" .
    then have p1: "prefix s h1" by (simp add: arrays_at_def)
    show ?thesis
    proof (cases "load_vec h1 (ref_y fr)")
      case (Inl e)
      then show ?thesis
        using Some \<open>store_t ct (heap fr) (ref_t_arr fr) i (val_t fr) = Inr h1\<close> p1
        by (simp add: record_sample_h_def tracked_def)
    next
      case (Inr w)
      note lv = this
      show ?thesis
      proof (cases "store_row cy h1 (ref_y_arr fr) i w")
        case (Inl e)
        then show ?thesis
          using Some \<open>store_t ct (heap fr) (ref_t_arr fr) i (val_t fr) = Inr h1\<close> lv p1
          by (simp add: record_sample_h_def tracked_def)
      next
        case (Inr h2)
        from arrays_at_store_row [OF a1 i Inr]
        have "arrays_at s t0 v h2 (ref_t_arr fr) (ref_y_arr fr)" .
        then show ?thesis
          using Some \<open>store_t ct (heap fr) (ref_t_arr fr) i (val_t fr) = Inr h1\<close> lv Inr i
          by (simp add: record_sample_h_def tracked_def tracking_def)
      qed
    qed
  qed
qed

lemma step_arrays_h_tracked:
  assumes "tracking s t0 v fr" "0 < i"
  shows "tracked s t0 v (step_arrays_h ct cy step i fr)"
proof -
  have a0: "arrays_at s t0 v (heap fr) (ref_t_arr fr) (ref_y_arr fr)"
    using assms by (simp add: tracking_def)
  have p0: "prefix s (heap fr)" using assms(1) by (rule tracking_prefix)
  show ?thesis
  proof (cases "load_t (heap fr) (ref_t_arr fr) (i - 1)")
    case (Inl e)
    then show ?thesis using p0 by (simp add: step_arrays_h_def tracked_def)
  next
    case (Inr a)
    note la = this
    show ?thesis
    proof (cases "load_row (heap fr) (ref_y_arr fr) (i - 1)")
      case (Inl e)
      then show ?thesis using la p0 by (simp add: step_arrays_h_def tracked_def)
    next
      case (Inr b)
      note lb = this
      obtain t' v' where st: "step a b = (t', v')" by (cases "step a b")
      let ?h1 = "heap fr @ [Vec v']"
      have a1: "arrays_at s t0 v ?h1 (ref_t_arr fr) (ref_y_arr fr)"
        by (rule arrays_at_snoc [OF a0])
      then have p1: "prefix s ?h1" by (simp add: arrays_at_def)
      show ?thesis
      proof (cases "store_t ct ?h1 (ref_t_arr fr) i t'")
        case (Inl e)
        then show ?thesis
          using la lb st p1 by (simp add: step_arrays_h_def tracked_def alloc_def)
      next
        case (Inr h2)
        note s2 = this
        from arrays_at_store_t [OF a1 assms(2) Inr]
        have a2: "arrays_at s t0 v h2 (ref_t_arr fr) (ref_y_arr fr)" .
        then have p2: "prefix s h2" by (simp add: arrays_at_def)
        show ?thesis
        proof (cases "store_row cy h2 (ref_y_arr fr) i v'")
          case (Inl e)
          then show ?thesis
            using la lb st s2 p2 by (simp add: step_arrays_h_def tracked_def alloc_def)
        next
          case (Inr h3)
          from arrays_at_store_row [OF a2 assms(2) Inr]
          have "arrays_at s t0 v h3 (ref_t_arr fr) (ref_y_arr fr)" .
          then show ?thesis
            using la lb st s2 Inr assms(2)
            by (simp add: step_arrays_h_def tracked_def alloc_def tracking_def)
        qed
      qed
    qed
  qed
qed

lemma check_exit_h_tracked:
  assumes "tracking s t0 v fr"
  shows "tracked s t0 v (map_sum id snd (check_exit_h ec nmax i fr))"
proof -
  have a0: "arrays_at s t0 v (heap fr) (ref_t_arr fr) (ref_y_arr fr)"
    using assms by (simp add: tracking_def)
  have p0: "prefix s (heap fr)" using assms by (rule tracking_prefix)
  have pos: "\<forall>k\<in>set [i + 1..<nmax + 1]. 0 < k" by (auto simp del: upt_Suc)
  show ?thesis
  proof (cases "load_t (heap fr) (ref_t_arr fr) i")
    case (Inl e)
    then show ?thesis using p0 by (simp add: check_exit_h_def tracked_def)
  next
    case (Inr a)
    note la = this
    show ?thesis
    proof (cases "load_row (heap fr) (ref_y_arr fr) i")
      case (Inl e)
      then show ?thesis using la p0 by (simp add: check_exit_h_def tracked_def)
    next
      case (Inr b)
      note lb = this
      show ?thesis
      proof (cases "ec a b")
        case False
        then show ?thesis using la lb assms by (simp add: check_exit_h_def tracked_def)
      next
        case True
        show ?thesis
        proof (cases "delete_times (heap fr) (ref_t_arr fr) [i + 1..<nmax + 1]")
          case (Inl e)
          then show ?thesis using la lb True p0 by (simp add: check_exit_h_def tracked_def)
        next
          case (Inr p)
          obtain h1 ta where p: "p = (h1, ta)" by (cases p)
          note dt = Inr [unfolded p]
          from arrays_at_delete_times [OF a0 pos dt]
          have a1: "arrays_at s t0 v h1 ta (ref_y_arr fr)" .
          then have p1: "prefix s h1" by (simp add: arrays_at_def)
          show ?thesis
          proof (cases "delete_rows h1 (ref_y_arr fr) [i + 1..<nmax + 1]")
            case (Inl e)
            then show ?thesis using la lb True dt p1 by (simp add: check_exit_h_def tracked_def)
          next
            case (Inr p')
            obtain h2 ya where p': "p' = (h2, ya)" by (cases p')
            note dr = Inr [unfolded p']
            from arrays_at_delete_rows [OF a1 pos dr]
            have "arrays_at s t0 v h2 ta ya" .
            then show ?thesis
              using la lb True dt dr assms
              by (simp add: check_exit_h_def tracked_def tracking_def)
          qed
        qed
      qed
    qed
  qed
qed

lemma track_all_h_tracked:
  assumes "tracking s t0 v fr" "\<forall>i\<in>set is. 0 < i"
  shows "tracked s t0 v (track_all_h ct cy step is fr)"
  using assms
proof (induction "is" arbitrary: fr)
  case Nil
  then show ?case by (simp add: tracked_def)
next
  case (Cons i "is")
  have "tracked s t0 v (step_arrays_h ct cy step i fr)"
    using Cons.prems by (intro step_arrays_h_tracked) simp_all
  then show ?case
    using Cons.IH Cons.prems(2)
    by (cases "step_arrays_h ct cy step i fr") (auto simp: tracked_def)
qed

lemma track_all_until_h_tracked:
  assumes "tracking s t0 v fr" "\<forall>i\<in>set is. 0 < i"
  shows "tracked s t0 v (track_all_until_h ct cy step ec nmax is fr)"
  using assms
proof (induction "is" arbitrary: fr)
  case Nil
  then show ?case by (simp add: tracked_def)
next
  case (Cons i "is")
  have 1: "tracked s t0 v (step_arrays_h ct cy step i fr)"
    using Cons.prems by (intro step_arrays_h_tracked) simp_all
  show ?case
  proof (cases "step_arrays_h ct cy step i fr")
    case (Inl a)
    then show ?thesis using 1 by (simp add: tracked_def)
  next
    case (Inr fr1)
    then have t1: "tracking s t0 v fr1" using 1 by (simp add: tracked_def)
    have 2: "tracked s t0 v (map_sum id snd (check_exit_h ec nmax i fr1))"
      by (rule check_exit_h_tracked [OF t1])
    show ?thesis
    proof (cases "check_exit_h ec nmax i fr1")
      case (Inl a)
      then show ?thesis using Inr 2 by (simp add: tracked_def)
    next
      case (Inr p)
      obtain stop fr2 where p: "p = (stop, fr2)" by (cases p)
      have t2: "tracking s t0 v fr2" using 2 Inr p by (simp add: tracked_def)
      show ?thesis
        using \<open>step_arrays_h ct cy step i fr = Inr fr1\<close> Inr p t2 Cons.IH [OF t2] Cons.prems(2)
        by (simp add: tracked_def)
    qed
  qed
qed

lemma turn_h_tracked:
  assumes "tracking s t0 v fr" "0 < i"
  shows "tracked s t0 v
           (case substeps_h step n (fr\<lparr>idx_i := Some i\<rparr>) of
              Inl e \<Rightarrow> Inl e | Inr fr1 \<Rightarrow> record_sample_h ct cy fr1)"
proof -
  have "tracking s t0 v (fr\<lparr>idx_i := Some i\<rparr>)"
    using assms by (simp add: tracking_def)
  then have 1: "tracked s t0 v (substeps_h step n (fr\<lparr>idx_i := Some i\<rparr>))"
    by (rule substeps_h_tracked)
  show ?thesis
  proof (cases "substeps_h step n (fr\<lparr>idx_i := Some i\<rparr>)")
    case (Inl a)
    then show ?thesis using 1 by simp
  next
    case (Inr fr1)
    then have "tracking s t0 v fr1" using 1 by (simp add: tracked_def)
    then show ?thesis using Inr by (simp add: record_sample_h_tracked)
  qed
qed

lemma last_interval_tracked:
  assumes "tracking s t0 v fr"
  shows "tracked s t0 v (last_interval ct cy step rest fr)"
proof -
  have 1: "tracked s t0 v (substeps_h step rest fr)"
    using assms by (rule substeps_h_tracked)
  show ?thesis
  proof (cases "substeps_h step rest fr")
    case (Inl a)
    then show ?thesis using 1 by (simp add: last_interval_def)
  next
    case (Inr fr1)
    then have "tracking s t0 v fr1" using 1 by (simp add: tracked_def)
    then show ?thesis using Inr by (simp add: last_interval_def record_sample_h_tracked)
  qed
qed

lemma track_every_h_tracked:
  assumes "tracking s t0 v fr" "\<forall>i\<in>set is. 0 < i"
  shows "tracked s t0 v (track_every_h ct cy step n is fr)"
  using assms
proof (induction "is" arbitrary: fr)
  case Nil
  then show ?case by (simp add: tracked_def)
next
  case (Cons i "is")
  let ?turn = "case substeps_h step n (fr\<lparr>idx_i := Some i\<rparr>) of
              Inl e \<Rightarrow> Inl e | Inr fr1 \<Rightarrow> record_sample_h ct cy fr1"
  have 1: "tracked s t0 v ?turn"
    using Cons.prems by (intro turn_h_tracked) simp_all
  have eq: "track_every_h ct cy step n (i # is) fr =
      (case ?turn of Inl e \<Rightarrow> Inl e | Inr fr2 \<Rightarrow> track_every_h ct cy step n is fr2)"
    by (simp split: sum.splits)
  show ?case
  proof (cases ?turn)
    case (Inl a)
    then show ?thesis using 1 unfolding eq by simp
  next
    case (Inr fr2)
    then have "tracking s t0 v fr2" using 1 by (simp add: tracked_def)
    from Cons.IH [OF this] Cons.prems(2) show ?thesis unfolding eq Inr by simp
  qed
qed

lemma track_every_until_h_tracked:
  assumes "tracking s t0 v fr" "\<forall>i\<in>set is. 0 < i"
  shows "tracked s t0 v (map_sum id snd (track_every_until_h ct cy step ec nmax n is fr))"
  using assms
proof (induction "is" arbitrary: fr)
  case Nil
  then show ?case by (simp add: tracked_def)
next
  case (Cons i "is")
  let ?turn = "case substeps_h step n (fr\<lparr>idx_i := Some i\<rparr>) of
              Inl e \<Rightarrow> Inl e | Inr fr1 \<Rightarrow> record_sample_h ct cy fr1"
  have 1: "tracked s t0 v ?turn"
    using Cons.prems by (intro turn_h_tracked) simp_all
  have eq: "track_every_until_h ct cy step ec nmax n (i # is) fr =
      (case ?turn of
         Inl e \<Rightarrow> Inl e
       | Inr fr2 \<Rightarrow>
           (case check_exit_h ec nmax i fr2 of
              Inl e \<Rightarrow> Inl e
            | Inr (stop, fr3) \<Rightarrow>
                (if stop then Inr (True, fr3)
                 else track_every_until_h ct cy step ec nmax n is fr3)))"
    by (simp split: sum.splits)
  show ?case
  proof (cases ?turn)
    case (Inl a)
    then show ?thesis using 1 unfolding eq by simp
  next
    case (Inr fr2)
    then have t2: "tracking s t0 v fr2" using 1 by (simp add: tracked_def)
    have 2: "tracked s t0 v (map_sum id snd (check_exit_h ec nmax i fr2))"
      by (rule check_exit_h_tracked [OF t2])
    show ?thesis
    proof (cases "check_exit_h ec nmax i fr2")
      case (Inl a)
      then show ?thesis using 2 unfolding eq Inr by (simp add: tracked_def)
    next
      case (Inr p)
      obtain stop fr3 where p: "p = (stop, fr3)" by (cases p)
      have t3: "tracking s t0 v fr3" using 2 Inr p by (simp add: tracked_def)
      show ?thesis
        unfolding eq \<open>?turn = Inr fr2\<close>
        using Inr p t3 Cons.IH [OF t3] Cons.prems(2) by (simp add: tracked_def)
    qed
  qed
qed

lemma load_vec_snoc: "load_vec h a = Inr v \<Longrightarrow> load_vec (h @ zs) a = Inr v"
  by (auto simp: load_vec_def nth_append split: if_splits)

lemma setup_arrays_tracked:
  assumes "load_vec (heap fr) (ref_y fr) = Inr v" "idx_i fr = None"
  shows "tracked (heap fr) (ct (val_t fr)) (cy v) (setup_arrays ct cy mem_t mem_y n fr)"
proof -
  let ?h = "heap fr"
  let ?E = "np_empty mem_t n"
  let ?F = "np_empty mem_y n"
  let ?h1 = "?h @ [TArr ?E]"
  let ?h2 = "?h1 @ [YArr ?F]"
  let ?ta = "length ?h"
  let ?ya = "length ?h1"
  have lv: "load_vec ?h1 (ref_y fr) = Inr v"
    by (rule load_vec_snoc [OF assms(1)])
  show ?thesis
  proof (cases "n = 0")
    case True
    have "store_t ct ?h2 ?ta 0 (val_t fr) = Inl IndexError"
      using True by (simp add: store_t_def load_times_def nth_append setitem_def np_empty_def)
    then show ?thesis
      using lv by (simp add: setup_arrays_def alloc_def tracked_def)
  next
    case False
    let ?h3 = "?h2[?ta := TArr (?E[0 := ct (val_t fr)])]"
    let ?h4 = "?h3[?ya := YArr (?F[0 := cy v])]"
    have len: "0 < length ?E" "0 < length ?F"
      using False by (simp_all add: np_empty_def)
    have s3: "store_t ct ?h2 ?ta 0 (val_t fr) = Inr ?h3"
      using len by (simp add: store_t_def load_times_def nth_append setitem_def)
    have s4: "store_row cy ?h3 ?ya 0 v = Inr ?h4"
      using len by (simp add: store_row_def load_rows_def nth_append setitem_def)
    have p: "prefix ?h ?h4"
      by (intro prefix_update prefix_snoc) simp_all
    have te: "t_entries ?h4 ?ta = ?E[0 := ct (val_t fr)]"
      by (simp add: t_entries_def load_times_def nth_append)
    have ye: "y_rows ?h4 ?ya = ?F[0 := cy v]"
      by (simp add: y_rows_def load_rows_def)
    have t1: "take 1 (?E[0 := ct (val_t fr)]) = [ct (val_t fr)]"
      using len(1) by (cases ?E) simp_all
    have y1: "take 1 (?F[0 := cy v]) = [cy v]"
      using len(2) by (cases ?F) simp_all
    have "arrays_at ?h (ct (val_t fr)) (cy v) ?h4 ?ta ?ya"
      unfolding arrays_at_def te ye using p t1 y1 by simp
    then have "tracking ?h (ct (val_t fr)) (cy v) (fr\<lparr>heap := ?h4, ref_t_arr := ?ta, ref_y_arr := ?ya\<rparr>)"
      using assms(2) by (simp add: tracking_def)
    moreover have "setup_arrays ct cy mem_t mem_y n fr =
        Inr (fr\<lparr>heap := ?h4, ref_t_arr := ?ta, ref_y_arr := ?ya\<rparr>)"
      using lv s3 s4 by (simp add: setup_arrays_def alloc_def)
    ultimately show ?thesis by (simp add: tracked_def)
  qed
qed

text \<open>What is claimed of the store and the result at the end of a call.\<close>

lemma returned_h_tracked:
  assumes "tracked s t0 v r"
  shows "case returned_h r of
           (h', res) \<Rightarrow> prefix s h' \<and>
             (case res of
                Inr (TrajectoryRef ta ya) \<Rightarrow>
                  length s \<le> ta \<and> length s \<le> ya
                  \<and> take 1 (t_entries h' ta) = [t0] \<and> take 1 (y_rows h' ya) = [v]
              | _ \<Rightarrow> True)"
  using assms
  by (auto simp: returned_h_def tracked_def tracking_def arrays_at_def split: sum.splits)

lemma every_step_h_tracked:
  assumes "load_vec (heap fr) (ref_y fr) = Inr v" "idx_i fr = None"
  shows "\<exists>r. every_step_h ct cy mem_t mem_y step fr nmax exitcond = returned_h r
           \<and> tracked (heap fr) (ct (val_t fr)) (cy v) r"
proof -
  have pos: "\<forall>i\<in>set [1..<nmax + 1]. 0 < i" by (auto simp del: upt_Suc)
  have 0: "tracked (heap fr) (ct (val_t fr)) (cy v) (setup_arrays ct cy mem_t mem_y (nmax + 1) fr)"
    by (rule setup_arrays_tracked [OF assms])
  show ?thesis
  proof (cases "setup_arrays ct cy mem_t mem_y (nmax + 1) fr")
    case (Inl a)
    then show ?thesis using 0 by (auto simp: every_step_h_def)
  next
    case (Inr fr1)
    then have t1: "tracking (heap fr) (ct (val_t fr)) (cy v) fr1" using 0 by (simp add: tracked_def)
    show ?thesis
    proof (cases exitcond)
      case None
      then show ?thesis
        using Inr track_all_h_tracked [OF t1 pos, of ct cy step]
        by (auto simp: every_step_h_def)
    next
      case (Some ec)
      then show ?thesis
        using Inr track_all_until_h_tracked [OF t1 pos, of ct cy step ec nmax]
        by (auto simp: every_step_h_def)
    qed
  qed
qed

lemma every_nth_h_tracked:
  assumes "load_vec (heap fr) (ref_y fr) = Inr v" "idx_i fr = None"
  shows "\<exists>r. every_nth_h ct cy mem_t mem_y step fr nmax exitcond N = returned_h r
           \<and> tracked (heap fr) (ct (val_t fr)) (cy v) r"
proof -
  define ntrack where "ntrack = 1 + (int nmax + N - 1) div N"
  define rest where "rest = nat (int nmax - (ntrack - 2) * N)"
  have pos: "\<forall>i\<in>set [1..<nat ntrack]. 0 < i" "\<forall>i\<in>set [1..<nmax + 1]. 0 < i"
    by (auto simp del: upt_Suc)
  have 0: "tracked (heap fr) (ct (val_t fr)) (cy v) (setup_arrays ct cy mem_t mem_y (nat (ntrack + 1)) fr)"
    by (rule setup_arrays_tracked [OF assms])
  have ev: "every_nth_h ct cy mem_t mem_y step fr nmax exitcond N =
      (case setup_arrays ct cy mem_t mem_y (nat (ntrack + 1)) fr of
           Inl e \<Rightarrow> returned_h (Inl e)
         | Inr fr0 \<Rightarrow>
            (case exitcond of
               None \<Rightarrow>
                 (case track_every_h ct cy step (nat N) [1..<nat ntrack] fr0 of
                    Inl e \<Rightarrow> returned_h (Inl e)
                  | Inr fr1 \<Rightarrow> returned_h (last_interval ct cy step rest fr1))
             | Some ec \<Rightarrow>
                 (case track_every_until_h ct cy step ec nmax (nat N) [1..<nmax + 1] fr0 of
                    Inl e \<Rightarrow> returned_h (Inl e)
                  | Inr (stop, fr1) \<Rightarrow>
                      (if stop then returned_h (Inr fr1)
                       else returned_h (last_interval ct cy step rest fr1)))))"
    unfolding every_nth_h_def Let_def ntrack_def rest_def ..
  show ?thesis
  proof (cases "setup_arrays ct cy mem_t mem_y (nat (ntrack + 1)) fr")
    case (Inl a)
    then show ?thesis using 0 unfolding ev by auto
  next
    case (Inr fr0)
    then have t0: "tracking (heap fr) (ct (val_t fr)) (cy v) fr0" using 0 by (simp add: tracked_def)
    show ?thesis
    proof (cases exitcond)
      case None
      have 1: "tracked (heap fr) (ct (val_t fr)) (cy v) (track_every_h ct cy step (nat N) [1..<nat ntrack] fr0)"
        by (rule track_every_h_tracked [OF t0 pos(1)])
      show ?thesis
      proof (cases "track_every_h ct cy step (nat N) [1..<nat ntrack] fr0")
        case (Inl a)
        then show ?thesis using 1 Inr None unfolding ev by auto
      next
        case (Inr fr1)
        then have "tracking (heap fr) (ct (val_t fr)) (cy v) fr1" using 1 by (simp add: tracked_def)
        from last_interval_tracked [OF this, of ct cy step rest]
        show ?thesis
          using Inr \<open>setup_arrays ct cy mem_t mem_y (nat (ntrack + 1)) fr = Inr fr0\<close> None
          unfolding ev by auto
      qed
    next
      case (Some ec)
      have 1: "tracked (heap fr) (ct (val_t fr)) (cy v)
          (map_sum id snd (track_every_until_h ct cy step ec nmax (nat N) [1..<nmax + 1] fr0))"
        by (rule track_every_until_h_tracked [OF t0 pos(2)])
      show ?thesis
      proof (cases "track_every_until_h ct cy step ec nmax (nat N) [1..<nmax + 1] fr0")
        case (Inl a)
        then show ?thesis using 1 Inr Some unfolding ev by auto
      next
        case (Inr p)
        obtain stop fr1 where p: "p = (stop, fr1)" by (cases p)
        have t1: "tracking (heap fr) (ct (val_t fr)) (cy v) fr1" using 1 Inr p by (simp add: tracked_def)
        show ?thesis
        proof (cases stop)
          case True
          have "tracked (heap fr) (ct (val_t fr)) (cy v) (Inr fr1)" using t1 by (simp add: tracked_def)
          then show ?thesis
            using Inr p True \<open>setup_arrays ct cy mem_t mem_y (nat (ntrack + 1)) fr = Inr fr0\<close> Some
            unfolding ev by auto
        next
          case False
          from last_interval_tracked [OF t1, of ct cy step rest]
          show ?thesis
            using Inr p False \<open>setup_arrays ct cy mem_t mem_y (nat (ntrack + 1)) fr = Inr fr0\<close> Some
            unfolding ev by auto
        qed
      qed
    qed
  qed
qed

lemma iterator_h_frame:
  assumes "y < length h" and "h ! y = Vec v"
  shows "case iterator_h ct cy mem_t mem_y step h t y nmax exitcond trackint of
           (h', res) \<Rightarrow> prefix h h' \<and> h' ! y = Vec v \<and>
             (case res of
                Inr (TrajectoryRef ta ya) \<Rightarrow>
                  length h \<le> ta \<and> length h \<le> ya
                  \<and> take 1 (t_entries h' ta) = [ct t] \<and> take 1 (y_rows h' ya) = [cy v]
              | _ \<Rightarrow> True)"
proof -
  let ?fr = "\<lparr>heap = h, val_t = t, ref_y = y, idx_i = None,
                ref_t_arr = length h, ref_y_arr = length h\<rparr>"
  let ?R = "iterator_h ct cy mem_t mem_y step h t y nmax exitcond trackint"
  have lv: "load_vec (heap ?fr) (ref_y ?fr) = Inr v"
    using assms by (simp add: load_vec_def)
  have idx: "idx_i ?fr = None" by simp
  have keep: "h' ! y = Vec v" if "prefix h h'" for h' :: "('a, 'b) obj list"
    using that assms by (auto simp: prefix_def nth_append)
  have main: "case ?R of
           (h', res) \<Rightarrow> prefix h h' \<and>
             (case res of
                Inr (TrajectoryRef ta ya) \<Rightarrow>
                  length h \<le> ta \<and> length h \<le> ya
                  \<and> take 1 (t_entries h' ta) = [ct t] \<and> take 1 (y_rows h' ya) = [cy v]
              | _ \<Rightarrow> True)"
  proof (cases "trackint = PyNone")
    case True
    let ?r = "case exitcond of None \<Rightarrow> substeps_h step nmax ?fr
                  | Some ec \<Rightarrow> steps_until_h step ec nmax ?fr"
    have R: "?R = (case ?r of Inl (e, h1) \<Rightarrow> (h1, Inl e)
            | Inr fr1 \<Rightarrow> (heap fr1, Inr (FinalRef (val_t fr1) (ref_y fr1))))"
      using True by (simp add: iterator_h_def Let_def)
    show ?thesis
    proof (cases ?r)
      case (Inl a)
      obtain e h1 where a: "a = (e, h1)" by (cases a)
      have "\<exists>zs. h1 = h @ zs"
        using Inl a substeps_h_grows(2) [of step nmax ?fr e h1]
          steps_until_h_grows(2) [of step _ nmax ?fr e h1]
        by (cases exitcond) auto
      then show ?thesis unfolding R Inl a by auto
    next
      case (Inr fr1)
      have "\<exists>zs. heap fr1 = h @ zs"
        using Inr substeps_h_grows(1) [of step nmax ?fr fr1]
          steps_until_h_grows(1) [of step _ nmax ?fr fr1]
        by (cases exitcond) auto
      then show ?thesis unfolding R Inr by auto
    qed
  next
    case False
    note nn = this
    show ?thesis
    proof (cases "eq_one trackint")
      case True
      from every_step_h_tracked [OF lv idx, of ct cy mem_t mem_y step nmax exitcond]
      obtain r where r: "every_step_h ct cy mem_t mem_y step ?fr nmax exitcond = returned_h r"
        and tr: "tracked h (ct t) (cy v) r" by auto
      have "?R = returned_h r" using nn True r by (simp add: iterator_h_def Let_def)
      then show ?thesis using returned_h_tracked [OF tr] by simp
    next
      case False
      note n1 = this
      show ?thesis
      proof (cases "gt_one trackint")
        case False
        then show ?thesis using nn n1 by (simp add: iterator_h_def Let_def)
      next
        case True
        show ?thesis
        proof (cases trackint)
          case PyNone
          then show ?thesis using nn by simp
        next
          case (PyInt k)
          from every_nth_h_tracked [OF lv idx, of ct cy mem_t mem_y step nmax exitcond k]
          obtain r where r: "every_nth_h ct cy mem_t mem_y step ?fr nmax exitcond k = returned_h r"
            and tr: "tracked h (ct t) (cy v) r" by auto
          have "?R = returned_h r" using nn n1 True PyInt r by (simp add: iterator_h_def Let_def)
          then show ?thesis using returned_h_tracked [OF tr] by simp
        next
          case (PyFloat x)
          then show ?thesis using nn n1 True by (simp add: iterator_h_def Let_def)
        qed
      qed
    qed
  qed
  then show ?thesis using keep by (auto split: prod.splits)
qed


text \<open>What kind of result a run hands back: the pair of arrays exactly when it tracks.\<close>

lemma returned_h_kind:
  "case snd (returned_h r) of
     Inl e \<Rightarrow> True
   | Inr res \<Rightarrow> (case res of FinalRef a b \<Rightarrow> False | TrajectoryRef ta ya \<Rightarrow> True)"
  by (simp add: returned_h_def split: sum.splits prod.splits)

lemma every_step_h_returned:
  "\<exists>r. every_step_h ct cy mem_t mem_y step fr nmax exitcond = returned_h r"
  by (auto simp: every_step_h_def split: sum.splits option.splits)

lemma every_nth_h_returned:
  "\<exists>r. every_nth_h ct cy mem_t mem_y step fr nmax exitcond N = returned_h r"
  by (auto simp: every_nth_h_def Let_def split: sum.splits option.splits prod.splits)

lemma iterator_h_kind:
  "case snd (iterator_h ct cy mem_t mem_y step h t y nmax exitcond trackint) of
     Inl e \<Rightarrow> True
   | Inr res \<Rightarrow>
       (case res of FinalRef a b \<Rightarrow> trackint = PyNone
        | TrajectoryRef ta ya \<Rightarrow> trackint \<noteq> PyNone)"
proof (cases "trackint = PyNone")
  case True
  then show ?thesis
    by (auto simp: iterator_h_def Let_def split: sum.splits prod.splits option.splits)
next
  case False
  let ?fr = "\<lparr>heap = h, val_t = t, ref_y = y, idx_i = None,
                ref_t_arr = length h, ref_y_arr = length h\<rparr>"
  let ?R = "iterator_h ct cy mem_t mem_y step h t y nmax exitcond trackint"
  have "(\<exists>r. ?R = returned_h r) \<or> (\<exists>e. ?R = (h, Inl e))"
  proof (cases trackint)
    case PyNone
    then show ?thesis using False by simp
  next
    case (PyInt k)
    then show ?thesis
      using every_step_h_returned [of ct cy mem_t mem_y step ?fr nmax exitcond]
        every_nth_h_returned [of ct cy mem_t mem_y step ?fr nmax exitcond k]
      by (auto simp: iterator_h_def Let_def)
  next
    case (PyFloat x)
    then show ?thesis
      using every_step_h_returned [of ct cy mem_t mem_y step ?fr nmax exitcond]
      by (auto simp: iterator_h_def Let_def)
  qed
  then show ?thesis
  proof
    assume "\<exists>r. ?R = returned_h r"
    then obtain r where "?R = returned_h r" ..
    then show ?thesis
      using returned_h_kind [of r] False
      by (auto split: sum.splits ref_result.splits)
  next
    assume "\<exists>e. ?R = (h, Inl e)"
    then show ?thesis by auto
  qed
qed

text \<open>
  Claim C9, as amended. Let the caller's \<open>y\<close> be the array at address \<open>y\<close> of the store
  \<open>h\<close>, with content \<open>v\<close>. Whatever the mode and however the run ends, the store at the
  end begins with \<open>h\<close>: no object the caller had has changed, and the array at \<open>y\<close>
  still holds \<open>v\<close>. A run that returns hands back the final pair when tracking is off
  and a pair of arrays when it is on. The arrays were allocated during the run, their
  first entries are the initial time and a copy of the initial state, both converted to
  \<open>float64\<close> (so equal to them when they are \<open>float64\<close> values), and overwriting the
  returned arrays leaves the array at \<open>y\<close> as it is.
\<close>

theorem iterator_h_leaves_store:
  assumes "y < length h" and "h ! y = Vec v"
  shows "case iterator_h ct cy mem_t mem_y step h t y nmax exitcond trackint of
           (h', res) \<Rightarrow> prefix h h' \<and> h' ! y = Vec v \<and>
             (case res of
                Inl e \<Rightarrow> True
              | Inr r \<Rightarrow>
                 (case r of
                    FinalRef a b \<Rightarrow> trackint = PyNone
                  | TrajectoryRef ta ya \<Rightarrow>
                      trackint \<noteq> PyNone \<and> length h \<le> ta \<and> length h \<le> ya
                      \<and> take 1 (t_entries h' ta) = [ct t] \<and> take 1 (y_rows h' ya) = [cy v]
                      \<and> (ct t = t \<and> cy v = v \<longrightarrow>
                            take 1 (t_entries h' ta) = [t] \<and> take 1 (y_rows h' ya) = [v])
                      \<and> (h'[ta := ob1, ya := ob2]) ! y = Vec v))"
  using iterator_h_frame [OF assms, where ct = ct and cy = cy and mem_t = mem_t
      and mem_y = mem_y and step = step and t = t and nmax = nmax and exitcond = exitcond
      and trackint = trackint]
    iterator_h_kind [where ct = ct and cy = cy and mem_t = mem_t
      and mem_y = mem_y and step = step and h = h and t = t and y = y and nmax = nmax
      and exitcond = exitcond and trackint = trackint]
    assms(1)
  by (auto split: prod.splits sum.splits ref_result.splits)

theorem iterator_h_leaves_store_witness:
  "(0::nat) < length [Vec 5 :: (nat, nat) obj] \<and> [Vec 5 :: (nat, nat) obj] ! 0 = Vec 5
   \<and> snd (iterator_h float64 float64 stale stale tick [Vec 5] 0 0 3 None (PyInt 1))
       = Inr (TrajectoryRef 1 2)
   \<and> float64 0 = 0 \<and> float64 5 = 5
   \<and> (case iterator_h float64 float64 stale stale tick [Vec 5] 0 0 3 None (PyInt 1) of
           (h', res) \<Rightarrow> prefix [Vec 5] h' \<and> h' ! 0 = Vec 5 \<and>
             (case res of
                Inl e \<Rightarrow> True
              | Inr r \<Rightarrow>
                 (case r of
                    FinalRef a b \<Rightarrow> PyInt 1 = PyNone
                  | TrajectoryRef ta ya \<Rightarrow>
                      PyInt 1 \<noteq> PyNone
                      \<and> length [Vec 5 :: (nat, nat) obj] \<le> ta
                      \<and> length [Vec 5 :: (nat, nat) obj] \<le> ya
                      \<and> take 1 (t_entries h' ta) = [float64 0]
                      \<and> take 1 (y_rows h' ya) = [float64 5]
                      \<and> (float64 0 = 0 \<and> float64 5 = 5 \<longrightarrow>
                            take 1 (t_entries h' ta) = [0] \<and> take 1 (y_rows h' ya) = [5])
                      \<and> (h'[ta := Vec 0, ya := Vec 0]) ! 0 = Vec 5)))"
proof -
  have h1: "(0::nat) < length [Vec 5 :: (nat, nat) obj]" by simp
  have h2: "[Vec 5 :: (nat, nat) obj] ! 0 = Vec 5" by simp
  have h3: "snd (iterator_h float64 float64 stale stale tick [Vec 5] 0 0 3 None (PyInt 1))
       = Inr (TrajectoryRef 1 2)" by code_simp
  have h4: "float64 0 = 0" "float64 5 = 5" by (simp_all add: float64_small)
  show ?thesis
    by (intro conjI h1 h2 h3 h4 iterator_h_leaves_store [OF h1 h2])
qed

lemma iterator_h_rounded:
  "iterator_h float64 float64 stale stale tick [Vec 9007199254740993] 0 0 0 None (PyInt 1) =
     ([Vec 9007199254740993, TArr [0], YArr [9007199254740992]], Inr (TrajectoryRef 1 2))"
  by (simp add: iterator_h_def every_step_h_def setup_arrays_def alloc_def load_vec_def
      np_empty_def store_t_def store_row_def load_times_def load_rows_def setitem_def
      returned_h_def float64_rounds float64_small)

text \<open>
  Claim C9 as stated makes the first row of the returned array equal to the initial
  state. The state \<open>2 ^ 53 + 1\<close> is stored as \<open>2 ^ 53\<close>.
\<close>

theorem iterator_h_rounded_counterexample:
  "snd (iterator_h float64 float64 stale stale tick [Vec 9007199254740993] 0 0 0 None (PyInt 1))
     = Inr (TrajectoryRef 1 2)
   \<and> y_rows (fst (iterator_h float64 float64 stale stale tick [Vec 9007199254740993] 0 0 0 None
         (PyInt 1))) 2 \<noteq> [9007199254740993]"
  unfolding iterator_h_rounded by (simp add: y_rows_def load_rows_def)

lemma np_zeros_6: "np_zeros 6 = [0, 0, 0, 0, 0, 0]"
  by (simp add: np_zeros_def eval_nat_numeral)

subsection \<open>The two models agree\<close>

lemma load_times_grow: "load_times h a = Inr xs \<Longrightarrow> load_times (h @ zs) a = Inr xs"
  by (auto simp: load_times_def nth_append split: if_splits)

lemma load_rows_grow: "load_rows h a = Inr rows \<Longrightarrow> load_rows (h @ zs) a = Inr rows"
  by (auto simp: load_rows_def nth_append split: if_splits)

lemma step_vars_agree:
  assumes "locals_agree fr hf"
  shows "\<exists>hf'. step_vars_h step hf = Inr hf' \<and> locals_agree (step_vars step fr) hf'
           \<and> (arrays_agree fr hf \<longrightarrow> arrays_agree (step_vars step fr) hf')"
proof -
  obtain t' v' where st: "step (var_t fr) (var_y fr) = (t', v')"
    by (cases "step (var_t fr) (var_y fr)")
  let ?hf' = "hf\<lparr>heap := heap hf @ [Vec v'], val_t := t', ref_y := length (heap hf)\<rparr>"
  have run: "step_vars_h step hf = Inr ?hf'"
    using assms st by (simp add: step_vars_h_def locals_agree_def alloc_def)
  have l: "locals_agree (step_vars step fr) ?hf'"
    using assms st by (simp add: step_vars_def locals_agree_def load_vec_def)
  have a: "arrays_agree (step_vars step fr) ?hf'" if "arrays_agree fr hf"
    using that st by (simp add: step_vars_def arrays_agree_def load_times_grow load_rows_grow)
  from run l a show ?thesis by blast
qed

lemma substeps_agree:
  assumes "locals_agree fr hf"
  shows "\<exists>hf'. substeps_h step k hf = Inr hf' \<and> locals_agree (substeps step k fr) hf'
           \<and> (arrays_agree fr hf \<longrightarrow> arrays_agree (substeps step k fr) hf')"
  using assms
proof (induction k arbitrary: fr hf)
  case 0
  then show ?case by simp
next
  case (Suc k)
  from step_vars_agree [OF Suc.prems, of step] obtain hf1 where
    s: "step_vars_h step hf = Inr hf1" and l: "locals_agree (step_vars step fr) hf1"
    and a: "arrays_agree fr hf \<longrightarrow> arrays_agree (step_vars step fr) hf1"
    by blast
  from Suc.IH [OF l] obtain hf' where
    s': "substeps_h step k hf1 = Inr hf'" and l': "locals_agree (substeps step k (step_vars step fr)) hf'"
    and a': "arrays_agree (step_vars step fr) hf1
              \<longrightarrow> arrays_agree (substeps step k (step_vars step fr)) hf'"
    by blast
  show ?case using s s' l' a a' by simp
qed

lemma steps_until_agree:
  assumes "locals_agree fr hf"
  shows "\<exists>hf'. steps_until_h step ec k hf = Inr hf' \<and> locals_agree (steps_until step ec k fr) hf'"
  using assms
proof (induction k arbitrary: fr hf)
  case 0
  then show ?case by simp
next
  case (Suc k)
  from step_vars_agree [OF Suc.prems, of step] obtain hf1 where
    s: "step_vars_h step hf = Inr hf1" and l: "locals_agree (step_vars step fr) hf1"
    by blast
  let ?fr1 = "step_vars step fr"
  let ?fr2 = "?fr1\<lparr>calls := calls ?fr1 @ [Check (var_t ?fr1) (var_y ?fr1)]\<rparr>"
  have l2: "locals_agree ?fr2 hf1" using l by (simp add: locals_agree_def)
  have lv: "load_vec (heap hf1) (ref_y hf1) = Inr (var_y ?fr1)"
    and vt: "val_t hf1 = var_t ?fr1"
    using l by (simp_all add: locals_agree_def)
  show ?case
  proof (cases "ec (var_t ?fr1) (var_y ?fr1)")
    case True
    then show ?thesis using s lv vt l2 by (simp add: Let_def)
  next
    case False
    from Suc.IH [OF l2] obtain hf' where
      "steps_until_h step ec k hf1 = Inr hf'" "locals_agree (steps_until step ec k ?fr2) hf'"
      by blast
    then show ?thesis using False s lv vt by (simp add: Let_def)
  qed
qed

lemma agree_store_t:
  assumes "load_times h ta = Inr xs" "load_rows h ya = Inr rows"
  shows "case setitem ct xs k x of
           Inl e \<Rightarrow> store_t ct h ta k x = Inl e
         | Inr xs' \<Rightarrow> \<exists>h'. store_t ct h ta k x = Inr h' \<and> load_times h' ta = Inr xs'
                        \<and> load_rows h' ya = Inr rows \<and> length h' = length h
                        \<and> (\<forall>a v. load_vec h a = Inr v \<longrightarrow> load_vec h' a = Inr v)"
proof -
  have ta: "ta < length h" "h ! ta = TArr xs"
    using assms(1) by (auto simp: load_times_def split: if_splits obj.splits)
  have ya: "ya < length h" "h ! ya = YArr rows"
    using assms(2) by (auto simp: load_rows_def split: if_splits obj.splits)
  have ne: "ta \<noteq> ya" using ta ya by auto
  have vec: "load_vec (h[ta := TArr zs]) a = Inr v" if "load_vec h a = Inr v" for a v zs
    using that ta by (cases "a = ta") (auto simp: load_vec_def split: if_splits)
  show ?thesis
    using assms ta ya ne vec
    by (auto simp: store_t_def setitem_def load_times_def load_rows_def split: sum.splits)
qed

lemma agree_store_row:
  assumes "load_times h ta = Inr xs" "load_rows h ya = Inr rows"
  shows "case setitem cy rows k w of
           Inl e \<Rightarrow> store_row cy h ya k w = Inl e
         | Inr rows' \<Rightarrow> \<exists>h'. store_row cy h ya k w = Inr h' \<and> load_times h' ta = Inr xs
                        \<and> load_rows h' ya = Inr rows' \<and> length h' = length h
                        \<and> (\<forall>a v. load_vec h a = Inr v \<longrightarrow> load_vec h' a = Inr v)"
proof -
  have ta: "ta < length h" "h ! ta = TArr xs"
    using assms(1) by (auto simp: load_times_def split: if_splits obj.splits)
  have ya: "ya < length h" "h ! ya = YArr rows"
    using assms(2) by (auto simp: load_rows_def split: if_splits obj.splits)
  have ne: "ta \<noteq> ya" using ta ya by auto
  have vec: "load_vec (h[ya := YArr zs]) a = Inr v" if "load_vec h a = Inr v" for a v zs
    using that ya by (cases "a = ya") (auto simp: load_vec_def split: if_splits)
  show ?thesis
    using assms ta ya ne vec
    by (auto simp: store_row_def setitem_def load_times_def load_rows_def split: sum.splits)
qed


lemma record_sample_agree:
  assumes "agree fr hf"
  shows "outcomes_agree (record_sample ct cy fr) (record_sample_h ct cy hf)"
proof (cases "var_i fr")
  case None
  then show ?thesis
    using assms
    by (simp add: agree_def locals_agree_def record_sample_def record_sample_h_def outcomes_agree_def)
next
  case (Some i)
  have la: "var_t fr = val_t hf" "load_vec (heap hf) (ref_y hf) = Inr (var_y fr)" "idx_i hf = Some i"
    using assms Some by (simp_all add: agree_def locals_agree_def)
  have lt: "load_times (heap hf) (ref_t_arr hf) = Inr (t_arr fr)"
    and lr: "load_rows (heap hf) (ref_y_arr hf) = Inr (y_arr fr)"
    using assms by (simp_all add: agree_def arrays_agree_def)
  show ?thesis
  proof (cases "setitem ct (t_arr fr) i (var_t fr)")
    case (Inl e)
    then have "store_t ct (heap hf) (ref_t_arr hf) i (val_t hf) = Inl e"
      using agree_store_t [OF lt lr, of ct i "var_t fr"] la(1) by simp
    then show ?thesis
      using Some Inl la by (simp add: record_sample_def record_sample_h_def outcomes_agree_def)
  next
    case (Inr ta')
    then obtain h1 where s1: "store_t ct (heap hf) (ref_t_arr hf) i (val_t hf) = Inr h1"
      and lt1: "load_times h1 (ref_t_arr hf) = Inr ta'"
      and lr1: "load_rows h1 (ref_y_arr hf) = Inr (y_arr fr)"
      and lv1: "\<forall>a v. load_vec (heap hf) a = Inr v \<longrightarrow> load_vec h1 a = Inr v"
      using agree_store_t [OF lt lr, of ct i "var_t fr"] la(1) by auto
    have v1: "load_vec h1 (ref_y hf) = Inr (var_y fr)" using lv1 la(2) by blast
    note st = Inr
    show ?thesis
    proof (cases "setitem cy (y_arr fr) i (var_y fr)")
      case (Inl e)
      then have "store_row cy h1 (ref_y_arr hf) i (var_y fr) = Inl e"
        using agree_store_row [OF lt1 lr1, of cy i "var_y fr"] by simp
      then show ?thesis
        using Some st Inl la s1 v1
        by (simp add: record_sample_def record_sample_h_def outcomes_agree_def)
    next
      case (Inr ya')
      then obtain h2 where s2: "store_row cy h1 (ref_y_arr hf) i (var_y fr) = Inr h2"
        and lt2: "load_times h2 (ref_t_arr hf) = Inr ta'"
        and lr2: "load_rows h2 (ref_y_arr hf) = Inr ya'"
        and lv2: "\<forall>a v. load_vec h1 a = Inr v \<longrightarrow> load_vec h2 a = Inr v"
        using agree_store_row [OF lt1 lr1, of cy i "var_y fr"] by auto
      have v2: "load_vec h2 (ref_y hf) = Inr (var_y fr)" using lv2 v1 by blast
      show ?thesis
        using Some st Inr la s1 v1 s2 lt2 lr2 v2
        by (simp add: record_sample_def record_sample_h_def outcomes_agree_def
            agree_def locals_agree_def arrays_agree_def)
    qed
  qed
qed

lemma step_arrays_agree:
  assumes "agree fr hf"
  shows "outcomes_agree (step_arrays ct cy step i fr) (step_arrays_h ct cy step i hf)"
proof -
  have la: "var_t fr = val_t hf" "load_vec (heap hf) (ref_y hf) = Inr (var_y fr)"
    "var_i fr = idx_i hf"
    using assms by (simp_all add: agree_def locals_agree_def)
  have lt: "load_times (heap hf) (ref_t_arr hf) = Inr (t_arr fr)"
    and lr: "load_rows (heap hf) (ref_y_arr hf) = Inr (y_arr fr)"
    using assms by (simp_all add: agree_def arrays_agree_def)
  have g1: "load_t (heap hf) (ref_t_arr hf) (i - 1) = getitem (t_arr fr) (i - 1)"
    using lt by (simp add: load_t_def)
  have g2: "load_row (heap hf) (ref_y_arr hf) (i - 1) = getitem (y_arr fr) (i - 1)"
    using lr by (simp add: load_row_def)
  show ?thesis
  proof (cases "getitem (t_arr fr) (i - 1)")
    case (Inl e)
    then show ?thesis using g1 by (simp add: step_arrays_def step_arrays_h_def outcomes_agree_def)
  next
    case (Inr a)
    note ga = this
    show ?thesis
    proof (cases "getitem (y_arr fr) (i - 1)")
      case (Inl e)
      then show ?thesis
        using g1 g2 ga by (simp add: step_arrays_def step_arrays_h_def outcomes_agree_def)
    next
      case (Inr b)
      note gb = this
      obtain t' v' where st: "step a b = (t', v')" by (cases "step a b")
      let ?h1 = "heap hf @ [Vec v']"
      have lt1: "load_times ?h1 (ref_t_arr hf) = Inr (t_arr fr)" by (rule load_times_grow [OF lt])
      have lr1: "load_rows ?h1 (ref_y_arr hf) = Inr (y_arr fr)" by (rule load_rows_grow [OF lr])
      have v1: "load_vec ?h1 (ref_y hf) = Inr (var_y fr)"
        using la(2) by (auto simp: load_vec_def nth_append split: if_splits)
      show ?thesis
      proof (cases "setitem ct (t_arr fr) i t'")
        case (Inl e)
        then have "store_t ct ?h1 (ref_t_arr hf) i t' = Inl e"
          using agree_store_t [OF lt1 lr1, of ct i t'] by simp
        then show ?thesis
          using g1 g2 ga gb st Inl
          by (simp add: step_arrays_def step_arrays_h_def outcomes_agree_def alloc_def)
      next
        case (Inr ta')
        then obtain h2 where s2: "store_t ct ?h1 (ref_t_arr hf) i t' = Inr h2"
          and lt2: "load_times h2 (ref_t_arr hf) = Inr ta'"
          and lr2: "load_rows h2 (ref_y_arr hf) = Inr (y_arr fr)"
          and lv2: "\<forall>a v. load_vec ?h1 a = Inr v \<longrightarrow> load_vec h2 a = Inr v"
          using agree_store_t [OF lt1 lr1, of ct i t'] by auto
        have v2: "load_vec h2 (ref_y hf) = Inr (var_y fr)" using lv2 v1 by blast
        note s_t = Inr
        show ?thesis
        proof (cases "setitem cy (y_arr fr) i v'")
          case (Inl e)
          then have "store_row cy h2 (ref_y_arr hf) i v' = Inl e"
            using agree_store_row [OF lt2 lr2, of cy i v'] by simp
          then show ?thesis
            using g1 g2 ga gb st s_t s2 Inl
            by (simp add: step_arrays_def step_arrays_h_def outcomes_agree_def alloc_def)
        next
          case (Inr ya')
          then obtain h3 where s3: "store_row cy h2 (ref_y_arr hf) i v' = Inr h3"
            and lt3: "load_times h3 (ref_t_arr hf) = Inr ta'"
            and lr3: "load_rows h3 (ref_y_arr hf) = Inr ya'"
            and lv3: "\<forall>a v. load_vec h2 a = Inr v \<longrightarrow> load_vec h3 a = Inr v"
            using agree_store_row [OF lt2 lr2, of cy i v'] by auto
          have v3: "load_vec h3 (ref_y hf) = Inr (var_y fr)" using lv3 v2 by blast
          show ?thesis
            using g1 g2 ga gb st s_t s2 Inr s3 lt3 lr3 v3 la
            by (simp add: step_arrays_def step_arrays_h_def outcomes_agree_def alloc_def
                agree_def locals_agree_def arrays_agree_def)
        qed
      qed
    qed
  qed
qed

text \<open>The exit test: the same exception, or the same decision and frames that agree.\<close>

lemma check_exit_agree:
  assumes "agree fr hf"
  shows "case check_exit ec nmax i fr of
           Inl (e, cs) \<Rightarrow> (\<exists>h. check_exit_h ec nmax i hf = Inl (e, h))
         | Inr (stop, fr') \<Rightarrow> (\<exists>hf'. check_exit_h ec nmax i hf = Inr (stop, hf') \<and> agree fr' hf')"
proof -
  have la: "var_t fr = val_t hf" "load_vec (heap hf) (ref_y hf) = Inr (var_y fr)"
    "var_i fr = idx_i hf"
    using assms by (simp_all add: agree_def locals_agree_def)
  have lt: "load_times (heap hf) (ref_t_arr hf) = Inr (t_arr fr)"
    and lr: "load_rows (heap hf) (ref_y_arr hf) = Inr (y_arr fr)"
    using assms by (simp_all add: agree_def arrays_agree_def)
  have g1: "load_t (heap hf) (ref_t_arr hf) i = getitem (t_arr fr) i"
    using lt by (simp add: load_t_def)
  have g2: "load_row (heap hf) (ref_y_arr hf) i = getitem (y_arr fr) i"
    using lr by (simp add: load_row_def)
  show ?thesis
  proof (cases "getitem (t_arr fr) i")
    case (Inl e)
    then show ?thesis using g1 by (simp add: check_exit_def check_exit_h_def)
  next
    case (Inr a)
    note ga = this
    show ?thesis
    proof (cases "getitem (y_arr fr) i")
      case (Inl e)
      then show ?thesis using g1 g2 ga by (simp add: check_exit_def check_exit_h_def)
    next
      case (Inr b)
      note gb = this
      show ?thesis
      proof (cases "ec a b")
        case False
        then show ?thesis
          using g1 g2 ga gb assms
          by (simp add: check_exit_def check_exit_h_def agree_def locals_agree_def arrays_agree_def)
      next
        case True
        note ec = this
        show ?thesis
        proof (cases "np_delete (t_arr fr) [i + 1..<nmax + 1]")
          case (Inl e)
          then show ?thesis
            using g1 g2 ga gb ec lt
            by (simp add: check_exit_def check_exit_h_def delete_times_def)
        next
          case (Inr ta')
          note dt = this
          let ?h1 = "heap hf @ [TArr ta']"
          have d1: "delete_times (heap hf) (ref_t_arr hf) [i + 1..<nmax + 1]
                      = Inr (?h1, length (heap hf))"
            using lt dt by (simp add: delete_times_def alloc_def)
          have lr1: "load_rows ?h1 (ref_y_arr hf) = Inr (y_arr fr)"
            by (rule load_rows_grow [OF lr])
          show ?thesis
          proof (cases "np_delete (y_arr fr) [i + 1..<nmax + 1]")
            case (Inl e)
            then show ?thesis
              using g1 g2 ga gb ec dt d1 lr1
              by (simp add: check_exit_def check_exit_h_def delete_rows_def)
          next
            case (Inr ya')
            let ?h2 = "?h1 @ [YArr ya']"
            have d2: "delete_rows ?h1 (ref_y_arr hf) [i + 1..<nmax + 1]
                      = Inr (?h2, length ?h1)"
              using lr1 Inr by (simp add: delete_rows_def alloc_def)
            have v2: "load_vec ?h2 (ref_y hf) = Inr (var_y fr)"
              using la(2) by (auto simp: load_vec_def nth_append split: if_splits)
            have t2: "load_times ?h2 (length (heap hf)) = Inr ta'"
              by (simp add: load_times_def nth_append)
            have "?h2 ! length ?h1 = YArr ya'"
              by (rule nth_append_length)
            then have r2: "load_rows ?h2 (length ?h1) = Inr ya'"
              unfolding load_rows_def by simp
            show ?thesis
              using g1 g2 ga gb ec dt d1 Inr d2 v2 t2 r2 la
              by (simp add: check_exit_def check_exit_h_def agree_def locals_agree_def
                  arrays_agree_def)
          qed
        qed
      qed
    qed
  qed
qed


lemma track_all_agree:
  assumes "agree fr hf"
  shows "outcomes_agree (track_all ct cy step is fr) (track_all_h ct cy step is hf)"
  using assms
proof (induction "is" arbitrary: fr hf)
  case Nil
  then show ?case by (simp add: outcomes_agree_def)
next
  case (Cons i "is")
  have 1: "outcomes_agree (step_arrays ct cy step i fr) (step_arrays_h ct cy step i hf)"
    by (rule step_arrays_agree [OF Cons.prems])
  show ?case
  proof (cases "step_arrays ct cy step i fr")
    case (Inl a)
    then show ?thesis using 1 by (auto simp: outcomes_agree_def split: sum.splits prod.splits)
  next
    case (Inr fr1)
    then obtain hf1 where h: "step_arrays_h ct cy step i hf = Inr hf1" and a: "agree fr1 hf1"
      using 1 by (auto simp: outcomes_agree_def split: sum.splits)
    from Cons.IH [OF a] show ?thesis using Inr h by simp
  qed
qed

lemma track_all_until_agree:
  assumes "agree fr hf"
  shows "outcomes_agree (track_all_until ct cy step ec nmax is fr) (track_all_until_h ct cy step ec nmax is hf)"
  using assms
proof (induction "is" arbitrary: fr hf)
  case Nil
  then show ?case by (simp add: outcomes_agree_def)
next
  case (Cons i "is")
  have 1: "outcomes_agree (step_arrays ct cy step i fr) (step_arrays_h ct cy step i hf)"
    by (rule step_arrays_agree [OF Cons.prems])
  show ?case
  proof (cases "step_arrays ct cy step i fr")
    case (Inl a)
    then show ?thesis using 1 by (auto simp: outcomes_agree_def split: sum.splits prod.splits)
  next
    case (Inr fr1)
    then obtain hf1 where h: "step_arrays_h ct cy step i hf = Inr hf1" and a: "agree fr1 hf1"
      using 1 by (auto simp: outcomes_agree_def split: sum.splits)
    note sa = Inr
    show ?thesis
    proof (cases "check_exit ec nmax i fr1")
      case (Inl p)
      obtain e cs where p: "p = (e, cs)" by (cases p)
      from check_exit_agree [OF a, of ec nmax i] Inl p
      obtain h' where "check_exit_h ec nmax i hf1 = Inl (e, h')" by auto
      then show ?thesis using sa h Inl p by (simp add: outcomes_agree_def)
    next
      case (Inr p)
      obtain stop fr2 where p: "p = (stop, fr2)" by (cases p)
      from check_exit_agree [OF a, of ec nmax i] Inr p
      obtain hf2 where c: "check_exit_h ec nmax i hf1 = Inr (stop, hf2)" and a2: "agree fr2 hf2"
        by auto
      show ?thesis
        using sa h Inr p c a2 Cons.IH [OF a2] by (simp add: outcomes_agree_def)
    qed
  qed
qed

lemma turn_agree:
  assumes "agree fr hf"
  shows "outcomes_agree (record_sample ct cy (substeps step n (fr\<lparr>var_i := Some i\<rparr>)))
           (case substeps_h step n (hf\<lparr>idx_i := Some i\<rparr>) of
              Inl e \<Rightarrow> Inl e | Inr hf1 \<Rightarrow> record_sample_h ct cy hf1)"
proof -
  have l: "locals_agree (fr\<lparr>var_i := Some i\<rparr>) (hf\<lparr>idx_i := Some i\<rparr>)"
    and a: "arrays_agree (fr\<lparr>var_i := Some i\<rparr>) (hf\<lparr>idx_i := Some i\<rparr>)"
    using assms by (simp_all add: agree_def locals_agree_def arrays_agree_def)
  from substeps_agree [OF l, of step n] a obtain hf1 where
    s: "substeps_h step n (hf\<lparr>idx_i := Some i\<rparr>) = Inr hf1"
    and "agree (substeps step n (fr\<lparr>var_i := Some i\<rparr>)) hf1"
    by (auto simp: agree_def)
  then show ?thesis by (simp add: record_sample_agree)
qed

lemma last_interval_agree:
  assumes "agree fr hf"
  shows "outcomes_agree (record_sample ct cy (substeps step rest fr)) (last_interval ct cy step rest hf)"
proof -
  from substeps_agree [of fr hf step rest] assms obtain hf1 where
    s: "substeps_h step rest hf = Inr hf1" and "agree (substeps step rest fr) hf1"
    by (auto simp: agree_def)
  then show ?thesis by (simp add: last_interval_def record_sample_agree)
qed

lemma track_every_agree:
  assumes "agree fr hf"
  shows "outcomes_agree (track_every ct cy step n is fr) (track_every_h ct cy step n is hf)"
  using assms
proof (induction "is" arbitrary: fr hf)
  case Nil
  then show ?case by (simp add: outcomes_agree_def)
next
  case (Cons i "is")
  let ?turn_h = "case substeps_h step n (hf\<lparr>idx_i := Some i\<rparr>) of
              Inl e \<Rightarrow> Inl e | Inr hf1 \<Rightarrow> record_sample_h ct cy hf1"
  have eq: "track_every_h ct cy step n (i # is) hf =
      (case ?turn_h of Inl e \<Rightarrow> Inl e | Inr hf2 \<Rightarrow> track_every_h ct cy step n is hf2)"
    by (simp split: sum.splits)
  have 1: "outcomes_agree (record_sample ct cy (substeps step n (fr\<lparr>var_i := Some i\<rparr>))) ?turn_h"
    by (rule turn_agree [OF Cons.prems])
  show ?case
  proof (cases "record_sample ct cy (substeps step n (fr\<lparr>var_i := Some i\<rparr>))")
    case (Inl a)
    then show ?thesis
      using 1 unfolding eq by (auto simp: outcomes_agree_def split: sum.splits prod.splits)
  next
    case (Inr fr1)
    then obtain hf1 where h: "?turn_h = Inr hf1" and a: "agree fr1 hf1"
      using 1 by (auto simp: outcomes_agree_def split: sum.splits)
    from Cons.IH [OF a] show ?thesis unfolding eq h using Inr by simp
  qed
qed

lemma track_every_until_agree:
  assumes "agree fr hf"
  shows "case track_every_until ct cy step ec nmax n is fr of
           Inl (e, cs) \<Rightarrow> (\<exists>h. track_every_until_h ct cy step ec nmax n is hf = Inl (e, h))
         | Inr (stop, fr') \<Rightarrow>
             (\<exists>hf'. track_every_until_h ct cy step ec nmax n is hf = Inr (stop, hf') \<and> agree fr' hf')"
  using assms
proof (induction "is" arbitrary: fr hf)
  case Nil
  then show ?case by simp
next
  case (Cons i "is")
  let ?turn_h = "case substeps_h step n (hf\<lparr>idx_i := Some i\<rparr>) of
              Inl e \<Rightarrow> Inl e | Inr hf1 \<Rightarrow> record_sample_h ct cy hf1"
  have eq: "track_every_until_h ct cy step ec nmax n (i # is) hf =
      (case ?turn_h of
         Inl e \<Rightarrow> Inl e
       | Inr hf2 \<Rightarrow>
           (case check_exit_h ec nmax i hf2 of
              Inl e \<Rightarrow> Inl e
            | Inr (stop, hf3) \<Rightarrow>
                (if stop then Inr (True, hf3)
                 else track_every_until_h ct cy step ec nmax n is hf3)))"
    by (simp split: sum.splits)
  have 1: "outcomes_agree (record_sample ct cy (substeps step n (fr\<lparr>var_i := Some i\<rparr>))) ?turn_h"
    by (rule turn_agree [OF Cons.prems])
  show ?case
  proof (cases "record_sample ct cy (substeps step n (fr\<lparr>var_i := Some i\<rparr>))")
    case (Inl a)
    then show ?thesis
      using 1 unfolding eq by (auto simp: outcomes_agree_def split: sum.splits prod.splits)
  next
    case (Inr fr1)
    then obtain hf1 where h: "?turn_h = Inr hf1" and a: "agree fr1 hf1"
      using 1 by (auto simp: outcomes_agree_def split: sum.splits)
    note rs = Inr
    show ?thesis
    proof (cases "check_exit ec nmax i fr1")
      case (Inl p)
      obtain e cs where p: "p = (e, cs)" by (cases p)
      from check_exit_agree [OF a, of ec nmax i] Inl p
      obtain h' where "check_exit_h ec nmax i hf1 = Inl (e, h')" by auto
      then show ?thesis unfolding eq h using rs Inl p by simp
    next
      case (Inr p)
      obtain stop fr2 where p: "p = (stop, fr2)" by (cases p)
      from check_exit_agree [OF a, of ec nmax i] Inr p
      obtain hf2 where c: "check_exit_h ec nmax i hf1 = Inr (stop, hf2)" and a2: "agree fr2 hf2"
        by auto
      have eh: "track_every_until_h ct cy step ec nmax n (i # is) hf =
          (if stop then Inr (True, hf2) else track_every_until_h ct cy step ec nmax n is hf2)"
        unfolding eq h using c by simp
      have ev: "track_every_until ct cy step ec nmax n (i # is) fr =
          (if stop then Inr (True, fr2) else track_every_until ct cy step ec nmax n is fr2)"
        using rs Inr p by simp
      show ?thesis
      proof (cases stop)
        case True
        then show ?thesis unfolding eh ev using a2 by simp
      next
        case False
        then show ?thesis unfolding eh ev using Cons.IH [OF a2] by simp
      qed
    qed
  qed
qed

lemma setup_arrays_agree:
  assumes "load_vec (heap hf) (ref_y hf) = Inr v" "0 < n"
  shows "\<exists>hf1. setup_arrays ct cy mem_t mem_y n hf = Inr hf1
           \<and> agree \<lparr>var_t = val_t hf, var_y = v, var_i = idx_i hf,
                     t_arr = (np_empty mem_t n)[0 := ct (val_t hf)],
                     y_arr = (np_empty mem_y n)[0 := cy v], calls = []\<rparr> hf1"
proof -
  let ?h = "heap hf"
  let ?E = "np_empty mem_t n"
  let ?F = "np_empty mem_y n"
  let ?h1 = "?h @ [TArr ?E]"
  let ?h2 = "?h1 @ [YArr ?F]"
  let ?ta = "length ?h"
  let ?ya = "length ?h1"
  let ?h3 = "?h2[?ta := TArr (?E[0 := ct (val_t hf)])]"
  let ?h4 = "?h3[?ya := YArr (?F[0 := cy v])]"
  have lv: "load_vec ?h1 (ref_y hf) = Inr v"
    using assms(1) by (auto simp: load_vec_def nth_append split: if_splits)
  have y: "ref_y hf < length ?h" "?h ! ref_y hf = Vec v"
    using assms(1) by (auto simp: load_vec_def split: if_splits obj.splits)
  have len: "0 < length ?E" "0 < length ?F"
    using assms(2) by (simp_all add: np_empty_def)
  have s3: "store_t ct ?h2 ?ta 0 (val_t hf) = Inr ?h3"
    using len by (simp add: store_t_def load_times_def nth_append setitem_def)
  have s4: "store_row cy ?h3 ?ya 0 v = Inr ?h4"
    using len by (simp add: store_row_def load_rows_def nth_append setitem_def)
  have run: "setup_arrays ct cy mem_t mem_y n hf =
        Inr (hf\<lparr>heap := ?h4, ref_t_arr := ?ta, ref_y_arr := ?ya\<rparr>)"
    using lv s3 s4 by (simp add: setup_arrays_def alloc_def)
  have t4: "load_times ?h4 ?ta = Inr (?E[0 := ct (val_t hf)])"
    by (simp add: load_times_def nth_append)
  have r4: "load_rows ?h4 ?ya = Inr (?F[0 := cy v])"
    by (simp add: load_rows_def)
  have v4: "load_vec ?h4 (ref_y hf) = Inr v"
    using y by (simp add: load_vec_def nth_append)
  show ?thesis
    unfolding run using t4 r4 v4
    by (simp add: agree_def locals_agree_def arrays_agree_def)
qed

lemma returned_agree:
  assumes "outcomes_agree r rh"
  shows "seen (returned_h rh) = snd (returned r)"
  using assms
  by (auto simp: outcomes_agree_def seen_def returned_h_def returned_def deref_def
      agree_def arrays_agree_def split: sum.splits prod.splits)


lemma every_step_agree:
  assumes "load_vec (heap hf) (ref_y hf) = Inr v" "idx_i hf = None"
  shows "seen (every_step_h ct cy mem_t mem_y step hf nmax exitcond) =
           snd (every_step ct cy mem_t mem_y step (val_t hf) v nmax exitcond)"
proof -
  let ?fr = "\<lparr>var_t = val_t hf, var_y = v, var_i = idx_i hf,
                t_arr = (np_empty mem_t (nmax + 1))[0 := ct (val_t hf)],
                y_arr = (np_empty mem_y (nmax + 1))[0 := cy v], calls = []\<rparr>"
  have "0 < nmax + 1" by simp
  from setup_arrays_agree [OF assms(1) this, of ct cy mem_t mem_y] obtain hf1 where
    su: "setup_arrays ct cy mem_t mem_y (nmax + 1) hf = Inr hf1" and a: "agree ?fr hf1"
    by blast
  show ?thesis
  proof (cases exitcond)
    case None
    have "seen (returned_h (track_all_h ct cy step [1..<nmax + 1] hf1)) =
            snd (returned (track_all ct cy step [1..<nmax + 1] ?fr))"
      by (rule returned_agree [OF track_all_agree [OF a]])
    then show ?thesis
      using None su assms(2) by (simp add: every_step_h_def every_step_def)
  next
    case (Some ec)
    have "seen (returned_h (track_all_until_h ct cy step ec nmax [1..<nmax + 1] hf1)) =
            snd (returned (track_all_until ct cy step ec nmax [1..<nmax + 1] ?fr))"
      by (rule returned_agree [OF track_all_until_agree [OF a]])
    then show ?thesis
      using Some su assms(2) by (simp add: every_step_h_def every_step_def)
  qed
qed

lemma every_nth_agree:
  assumes "load_vec (heap hf) (ref_y hf) = Inr v" "idx_i hf = None" "1 < N"
  shows "seen (every_nth_h ct cy mem_t mem_y step hf nmax exitcond N) =
           snd (every_nth ct cy mem_t mem_y step (val_t hf) v nmax exitcond N)"
proof -
  define ntrack where "ntrack = 1 + (int nmax + N - 1) div N"
  define rest where "rest = nat (int nmax - (ntrack - 2) * N)"
  have "0 \<le> int nmax + N - 1" using assms(3) by simp
  then have "0 \<le> (int nmax + N - 1) div N"
    using assms(3) by (simp add: pos_imp_zdiv_nonneg_iff)
  then have pos: "0 < nat (ntrack + 1)" by (simp add: ntrack_def)
  let ?fr = "\<lparr>var_t = val_t hf, var_y = v, var_i = idx_i hf,
                t_arr = (np_empty mem_t (nat (ntrack + 1)))[0 := ct (val_t hf)],
                y_arr = (np_empty mem_y (nat (ntrack + 1)))[0 := cy v], calls = []\<rparr>"
  from setup_arrays_agree [OF assms(1) pos, of ct cy mem_t mem_y] obtain hf0 where
    su: "setup_arrays ct cy mem_t mem_y (nat (ntrack + 1)) hf = Inr hf0" and a: "agree ?fr hf0"
    by blast
  have eh: "every_nth_h ct cy mem_t mem_y step hf nmax exitcond N =
      (case exitcond of
               None \<Rightarrow>
                 (case track_every_h ct cy step (nat N) [1..<nat ntrack] hf0 of
                    Inl e \<Rightarrow> returned_h (Inl e)
                  | Inr fr1 \<Rightarrow> returned_h (last_interval ct cy step rest fr1))
             | Some ec \<Rightarrow>
                 (case track_every_until_h ct cy step ec nmax (nat N) [1..<nmax + 1] hf0 of
                    Inl e \<Rightarrow> returned_h (Inl e)
                  | Inr (stop, fr1) \<Rightarrow>
                      (if stop then returned_h (Inr fr1)
                       else returned_h (last_interval ct cy step rest fr1))))"
    unfolding every_nth_h_def Let_def ntrack_def [symmetric] rest_def [symmetric] su by simp
  have ev: "every_nth ct cy mem_t mem_y step (val_t hf) v nmax exitcond N =
      (case exitcond of
           None \<Rightarrow>
             (case track_every ct cy step (nat N) [1..<nat ntrack] ?fr of
                Inl e \<Rightarrow> returned (Inl e)
              | Inr fr1 \<Rightarrow> returned (record_sample ct cy (substeps step rest fr1)))
         | Some ec \<Rightarrow>
             (case track_every_until ct cy step ec nmax (nat N) [1..<nmax + 1] ?fr of
                Inl e \<Rightarrow> returned (Inl e)
              | Inr (stop, fr1) \<Rightarrow>
                  if stop then returned (Inr fr1)
                  else returned (record_sample ct cy (substeps step rest fr1))))"
    unfolding every_nth_def Let_def ntrack_def [symmetric] rest_def [symmetric] assms(2) ..
  show ?thesis
  proof (cases exitcond)
    case None
    have 1: "outcomes_agree (track_every ct cy step (nat N) [1..<nat ntrack] ?fr)
               (track_every_h ct cy step (nat N) [1..<nat ntrack] hf0)"
      by (rule track_every_agree [OF a])
    show ?thesis
    proof (cases "track_every ct cy step (nat N) [1..<nat ntrack] ?fr")
      case (Inl p)
      obtain e cs where p: "p = (e, cs)" by (cases p)
      then obtain h' where "track_every_h ct cy step (nat N) [1..<nat ntrack] hf0 = Inl (e, h')"
        using 1 Inl by (auto simp: outcomes_agree_def split: sum.splits)
      then show ?thesis
        unfolding eh ev using None Inl p by (simp add: returned_def returned_h_def seen_def)
    next
      case (Inr fr1)
      then obtain hf1 where h: "track_every_h ct cy step (nat N) [1..<nat ntrack] hf0 = Inr hf1"
        and a1: "agree fr1 hf1"
        using 1 by (auto simp: outcomes_agree_def split: sum.splits)
      have "seen (returned_h (last_interval ct cy step rest hf1)) =
              snd (returned (record_sample ct cy (substeps step rest fr1)))"
        by (rule returned_agree [OF last_interval_agree [OF a1]])
      then show ?thesis unfolding eh ev using None Inr h by simp
    qed
  next
    case (Some ec)
    show ?thesis
    proof (cases "track_every_until ct cy step ec nmax (nat N) [1..<nmax + 1] ?fr")
      case (Inl p)
      obtain e cs where p: "p = (e, cs)" by (cases p)
      from track_every_until_agree [OF a, of ct cy step ec nmax "nat N" "[1..<nmax + 1]"] Inl p
      obtain h' where "track_every_until_h ct cy step ec nmax (nat N) [1..<nmax + 1] hf0 = Inl (e, h')"
        by auto
      then show ?thesis
        unfolding eh ev using Some Inl p by (simp add: returned_def returned_h_def seen_def)
    next
      case (Inr p)
      obtain stop fr1 where p: "p = (stop, fr1)" by (cases p)
      from track_every_until_agree [OF a, of ct cy step ec nmax "nat N" "[1..<nmax + 1]"] Inr p
      obtain hf1 where
        h: "track_every_until_h ct cy step ec nmax (nat N) [1..<nmax + 1] hf0 = Inr (stop, hf1)"
        and a1: "agree fr1 hf1"
        by auto
      show ?thesis
      proof (cases stop)
        case True
        have "outcomes_agree (Inr fr1) (Inr hf1)" using a1 by (simp add: outcomes_agree_def)
        from returned_agree [OF this] show ?thesis
          unfolding eh ev using Some Inr p h True by simp
      next
        case False
        have "seen (returned_h (last_interval ct cy step rest hf1)) =
              snd (returned (record_sample ct cy (substeps step rest fr1)))"
          by (rule returned_agree [OF last_interval_agree [OF a1]])
        then show ?thesis unfolding eh ev using Some Inr p h False by simp
      qed
    qed
  qed
qed

text \<open>
  What the caller sees of a run over the store is what the first model returns on the
  content of the array passed for \<open>y\<close>.
\<close>

lemma iterator_h_refines:
  assumes "load_vec h y = Inr v"
  shows "seen (iterator_h ct cy mem_t mem_y step h t y nmax exitcond trackint) =
           snd (iterator ct cy mem_t mem_y step t v nmax exitcond trackint)"
proof -
  let ?hf = "\<lparr>heap = h, val_t = t, ref_y = y, idx_i = None,
                ref_t_arr = length h, ref_y_arr = length h\<rparr>"
  let ?fr = "\<lparr>var_t = t, var_y = v, var_i = None, t_arr = [], y_arr = [], calls = []\<rparr>"
  have lv: "load_vec (heap ?hf) (ref_y ?hf) = Inr v" using assms by simp
  have idx: "idx_i ?hf = None" by simp
  have la: "locals_agree ?fr ?hf" using assms by (simp add: locals_agree_def)
  show ?thesis
  proof (cases "trackint = PyNone")
    case True
    show ?thesis
    proof (cases exitcond)
      case None
      from substeps_agree [OF la, of step nmax] obtain hf' where
        "substeps_h step nmax ?hf = Inr hf'" "locals_agree (substeps step nmax ?fr) hf'"
        by blast
      then show ?thesis
        using True None
        by (simp add: iterator_h_def iterator_def Let_def seen_def deref_def locals_agree_def)
    next
      case (Some ec)
      from steps_until_agree [OF la, of step ec nmax] obtain hf' where
        "steps_until_h step ec nmax ?hf = Inr hf'" "locals_agree (steps_until step ec nmax ?fr) hf'"
        by blast
      then show ?thesis
        using True Some
        by (simp add: iterator_h_def iterator_def Let_def seen_def deref_def locals_agree_def)
    qed
  next
    case False
    note nn = this
    show ?thesis
    proof (cases "eq_one trackint")
      case True
      from every_step_agree [OF lv idx, of ct cy mem_t mem_y step nmax exitcond]
      show ?thesis using nn True by (simp add: iterator_h_def iterator_def Let_def)
    next
      case False
      note n1 = this
      show ?thesis
      proof (cases "gt_one trackint")
        case False
        then show ?thesis
          using nn n1 by (simp add: iterator_h_def iterator_def Let_def seen_def)
      next
        case True
        show ?thesis
        proof (cases trackint)
          case PyNone
          then show ?thesis using nn by simp
        next
          case (PyInt k)
          then have "1 < k" using True by simp
          from every_nth_agree [OF lv idx this, of ct cy mem_t mem_y step nmax exitcond]
          show ?thesis using nn n1 True PyInt by (simp add: iterator_h_def iterator_def Let_def)
        next
          case (PyFloat x)
          then show ?thesis
            using nn n1 True by (simp add: iterator_h_def iterator_def Let_def seen_def)
        qed
      qed
    qed
  qed
qed

text \<open>
  With \<open>trackint = 1\<close> and no exit condition a run on an array \<open>y\<close> raises nothing: it
  returns the two arrays.
\<close>

lemma iterator_h_every_step_returns:
  assumes "load_vec h y = Inr v"
  shows "\<exists>ta ya. snd (iterator_h ct cy mem_t mem_y step h t y nmax None (PyInt 1)) =
           Inr (TrajectoryRef ta ya)"
proof -
  let ?R = "iterator_h ct cy mem_t mem_y step h t y nmax None (PyInt 1)"
  have "seen ?R = snd (iterator ct cy mem_t mem_y step t v nmax None (PyInt 1))"
    by (rule iterator_h_refines [OF assms])
  then have s: "\<exists>r. seen ?R = Inr r"
    by (simp add: iterator_every_step_stored)
  have "\<exists>r. snd ?R = Inr r"
  proof (cases "snd ?R")
    case (Inl e)
    then have "seen ?R = Inl e" by (cases ?R) (simp add: seen_def)
    with s show ?thesis by simp
  next
    case (Inr r)
    then show ?thesis by simp
  qed
  then obtain r where r: "snd ?R = Inr r" ..
  have "case snd ?R of
     Inl e \<Rightarrow> True
   | Inr res \<Rightarrow>
       (case res of FinalRef a b \<Rightarrow> PyInt 1 = PyNone
        | TrajectoryRef ta ya \<Rightarrow> PyInt 1 \<noteq> PyNone)"
    by (rule iterator_h_kind)
  with r show ?thesis
    by (cases r) simp_all
qed

text \<open>
  Claim C10. The \<open>def\<close> statement allocates the default array once, at address \<open>d\<close>, six
  zeros. In every later store \<open>h\<close> that still begins with the store of that moment, a
  call without \<open>y\<close> is the call on the array at \<open>d\<close>, which holds six zeros: the caller
  sees what \<open>iterator\<close> returns on the initial state of six zeros. The store the call
  leaves again begins with the store of the definition, so the next such call finds the
  same six zeros.
\<close>

theorem default_y_shared:
  assumes "define_iterator h0 = (h1, d)" and "prefix h1 h"
  shows "h ! d = Vec [0, 0, 0, 0, 0, 0]
       \<and> call_iterator d ct cy mem_t mem_y step h t None nmax exitcond trackint
           = call_iterator d ct cy mem_t mem_y step h t (Some d) nmax exitcond trackint
       \<and> seen (call_iterator d ct cy mem_t mem_y step h t None nmax exitcond trackint)
           = snd (iterator ct cy mem_t mem_y step t [0, 0, 0, 0, 0, 0] nmax exitcond trackint)
       \<and> (case call_iterator d ct cy mem_t mem_y step h t None nmax exitcond trackint of
            (h', res) \<Rightarrow> prefix h1 h' \<and> h' ! d = Vec [0, 0, 0, 0, 0, 0])"
proof -
  have h1: "h1 = h0 @ [Vec [0, 0, 0, 0, 0, 0]]" and d: "d = length h0"
    using assms(1) by (simp_all add: define_iterator_def alloc_def np_zeros_6)
  from assms(2) obtain zs where h: "h = h1 @ zs" by (auto simp: prefix_def)
  have dl: "d < length h" and hd: "h ! d = Vec [0, 0, 0, 0, 0, 0]"
    unfolding h h1 d by (simp_all add: nth_append)
  have lv: "load_vec h d = Inr [0, 0, 0, 0, 0, 0]"
    using dl hd by (simp add: load_vec_def)
  have sees: "seen (call_iterator d ct cy mem_t mem_y step h t None nmax exitcond trackint)
           = snd (iterator ct cy mem_t mem_y step t [0, 0, 0, 0, 0, 0] nmax exitcond trackint)"
    using iterator_h_refines [OF lv] by (simp add: call_iterator_def)
  have "prefix h1 h'" if "prefix h h'" for h' :: "('a, 'b list) obj list"
    using assms(2) that by (rule prefix_order.trans)
  then have "case call_iterator d ct cy mem_t mem_y step h t None nmax exitcond trackint of
            (h', res) \<Rightarrow> prefix h1 h' \<and> h' ! d = Vec [0, 0, 0, 0, 0, 0]"
    using iterator_h_frame [OF dl hd, where ct = ct and cy = cy and mem_t = mem_t and mem_y = mem_y and step = step
      and t = t and nmax = nmax and exitcond = exitcond and trackint = trackint]
    by (auto simp: call_iterator_def split: prod.splits)
  with hd sees show ?thesis
    by (simp add: call_iterator_def)
qed

theorem default_y_shared_witness:
  "define_iterator [] = ([Vec [0, 0, 0, 0, 0, 0] :: (nat, nat list) obj], 0)
   \<and> prefix [Vec [0, 0, 0, 0, 0, 0] :: (nat, nat list) obj] [Vec [0, 0, 0, 0, 0, 0]]
   \<and> [Vec [0, 0, 0, 0, 0, 0] :: (nat, nat list) obj] ! 0 = Vec [0, 0, 0, 0, 0, 0]
   \<and> call_iterator 0 float64 (map float64) stale stale_rows bump [Vec [0, 0, 0, 0, 0, 0]] 0 None 2 None (PyInt 1)
       = call_iterator 0 float64 (map float64) stale stale_rows bump [Vec [0, 0, 0, 0, 0, 0]] 0 (Some 0) 2 None (PyInt 1)
   \<and> seen (call_iterator 0 float64 (map float64) stale stale_rows bump [Vec [0, 0, 0, 0, 0, 0]] 0 None 2 None (PyInt 1))
       = snd (iterator float64 (map float64) stale stale_rows bump 0 [0, 0, 0, 0, 0, 0] 2 None (PyInt 1))
   \<and> (case call_iterator 0 float64 (map float64) stale stale_rows bump [Vec [0, 0, 0, 0, 0, 0]] 0 None 2 None (PyInt 1) of
            (h', res) \<Rightarrow> prefix [Vec [0, 0, 0, 0, 0, 0]] h' \<and> h' ! 0 = Vec [0, 0, 0, 0, 0, 0])"
proof -
  have a1: "define_iterator [] = ([Vec [0, 0, 0, 0, 0, 0] :: (nat, nat list) obj], 0)"
    by (simp add: define_iterator_def alloc_def np_zeros_6)
  have a2: "prefix [Vec [0, 0, 0, 0, 0, 0] :: (nat, nat list) obj] [Vec [0, 0, 0, 0, 0, 0]]"
    by simp
  show ?thesis
    by (intro conjI a1 a2 default_y_shared [OF a1 a2, THEN conjunct1]
        default_y_shared [OF a1 a2, THEN conjunct2, THEN conjunct1]
        default_y_shared [OF a1 a2, THEN conjunct2, THEN conjunct2, THEN conjunct1]
        default_y_shared [OF a1 a2, THEN conjunct2, THEN conjunct2, THEN conjunct2])
qed

text \<open>The run of that call, and the same call made again on the store it left.\<close>

lemma default_y_twice:
  "call_iterator 0 float64 (map float64) stale stale_rows bump [Vec [0, 0, 0, 0, 0, 0]] 0 None 2 None (PyInt 1) =
     ([Vec [0, 0, 0, 0, 0, 0], TArr [0, 1, 2],
       YArr [[0, 0, 0, 0, 0, 0], [1, 1, 1, 1, 1, 1], [2, 2, 2, 2, 2, 2]],
       Vec [1, 1, 1, 1, 1, 1], Vec [2, 2, 2, 2, 2, 2]], Inr (TrajectoryRef 1 2))"
  "seen (call_iterator 0 float64 (map float64) stale stale_rows bump
       [Vec [0, 0, 0, 0, 0, 0], TArr [0, 1, 2],
        YArr [[0, 0, 0, 0, 0, 0], [1, 1, 1, 1, 1, 1], [2, 2, 2, 2, 2, 2]],
        Vec [1, 1, 1, 1, 1, 1], Vec [2, 2, 2, 2, 2, 2]] 0 None 2 None (PyInt 1)) =
     Inr (Trajectory [0, 1, 2] [[0, 0, 0, 0, 0, 0], [1, 1, 1, 1, 1, 1], [2, 2, 2, 2, 2, 2]])"
  by code_simp+

end
